theory Spec2Isabelle
  imports Main "HOL-Library.Word"
begin

section \<open>Python values handled by aioredis/util.py\<close>

text \<open>
  A \<open>bytes\<close> or \<open>bytearray\<close> object is a list of octets; a \<open>str\<close> is a list of Unicode
  code points (Python allows lone surrogates in a \<open>str\<close>; only code points below
  \<open>0x110000\<close> exist).
\<close>

type_synonym byte = "8 word"
type_synonym bytes = "byte list"
type_synonym pystr = "nat list"

text \<open>
  Runtime types. \<open>T_user name base\<close> is a user-defined class \<open>class name(base)\<close> that
  overrides nothing.
\<close>

datatype pytype =
    T_bytes | T_bytearray | T_str | T_int | T_float | T_bool | T_NoneType | T_list
  | T_user string pytype

text \<open>
  Values that callers pass as command arguments or as lookup keys. A float is its IEEE 754
  double bit pattern. \<open>PInst name v\<close> is an instance of \<open>class name(type(v))\<close> that
  carries the data of \<open>v\<close>.
\<close>

datatype pyval =
    PBytes bytes
  | PByteArray bytes
  | PStr pystr
  | PInt int
  | PFloat "64 word"
  | PBool bool
  | PNone
  | PList "pyval list"
  | PInst string pyval

fun type_of :: "pyval \<Rightarrow> pytype" where
  "type_of (PBytes _) = T_bytes"
| "type_of (PByteArray _) = T_bytearray"
| "type_of (PStr _) = T_str"
| "type_of (PInt _) = T_int"
| "type_of (PFloat _) = T_float"
| "type_of (PBool _) = T_bool"
| "type_of PNone = T_NoneType"
| "type_of (PList _) = T_list"
| "type_of (PInst name v) = T_user name (type_of v)"

text \<open>The method resolution order of a type, without \<open>object\<close>: \<open>bool\<close> derives from \<open>int\<close>.\<close>

fun mro :: "pytype \<Rightarrow> pytype list" where
  "mro T_bool = [T_bool, T_int]"
| "mro (T_user name base) = T_user name base # mro base"
| "mro t = [t]"

definition py_isinstance :: "pyval \<Rightarrow> pytype \<Rightarrow> bool" where
  "py_isinstance v t = (t \<in> set (mro (type_of v)))"

definition strict_subclass :: "pytype \<Rightarrow> pytype \<Rightarrow> bool" where
  "strict_subclass t base = (t \<noteq> base \<and> base \<in> set (mro t))"

text \<open>The two bytes-like objects a converter can return.\<close>

datatype blob = Bytes bytes | Bytearray bytes

fun data :: "blob \<Rightarrow> bytes" where
  "data (Bytes b) = b"
| "data (Bytearray b) = b"

text \<open>Replies that the connection's parser hands to the adapters and to the scan iterators.\<close>

datatype reply =
    RBytes bytes
  | RStr pystr
  | RInt int
  | RNone
  | RList "reply list"

fun reply_type :: "reply \<Rightarrow> pytype" where
  "reply_type (RBytes _) = T_bytes"
| "reply_type (RStr _) = T_str"
| "reply_type (RInt _) = T_int"
| "reply_type RNone = T_NoneType"
| "reply_type (RList _) = T_list"

text \<open>Exceptions, each with the argument that identifies it.\<close>

datatype type_error =
    Argument_expected pyval
  | Unhashable pytype
  | Not_iterable pytype

datatype key_error = Missing_type pytype | Missing_key bytes

datatype pyerror =
    TypeError type_error
  | KeyError key_error
  | UnicodeEncodeError
  | UnicodeDecodeError
  | IndexError
  | AssertionError
  | StopAsyncIteration
  | Raised string

text \<open>Literals: \<open>b'...'\<close> and \<open>'...'\<close> for ASCII text.\<close>

definition ascii :: "string \<Rightarrow> bytes" where
  "ascii s = map of_char s"

definition str :: "string \<Rightarrow> pystr" where
  "str s = map of_char s"

definition crlf :: bytes where
  "crlf = [0x0D, 0x0A]"

section \<open>Built-in conversions used by the module\<close>

text \<open>\<open>str.encode('utf-8')\<close>: a surrogate code point raises UnicodeEncodeError.\<close>

definition utf8_code_point :: "nat \<Rightarrow> pyerror + bytes" where
  "utf8_code_point c =
     (if c < 0x80 then Inr [of_nat c]
      else if c < 0x800 then Inr [of_nat (0xC0 + c div 64), of_nat (0x80 + c mod 64)]
      else if 0xD800 \<le> c \<and> c < 0xE000 then Inl UnicodeEncodeError
      else if c < 0x10000 then
        Inr [of_nat (0xE0 + c div 4096), of_nat (0x80 + c div 64 mod 64),
             of_nat (0x80 + c mod 64)]
      else if c < 0x110000 then
        Inr [of_nat (0xF0 + c div 262144), of_nat (0x80 + c div 4096 mod 64),
             of_nat (0x80 + c div 64 mod 64), of_nat (0x80 + c mod 64)]
      else Inl UnicodeEncodeError)"

fun utf8_encode :: "pystr \<Rightarrow> pyerror + bytes" where
  "utf8_encode [] = Inr []"
| "utf8_encode (c # cs) =
     (case utf8_code_point c of
        Inl e \<Rightarrow> Inl e
      | Inr b \<Rightarrow> (case utf8_encode cs of Inl e \<Rightarrow> Inl e | Inr bs \<Rightarrow> Inr (b @ bs)))"

text \<open>\<open>str(n)\<close> for an integer: decimal digits, with a minus sign when negative.\<close>

fun str_nat :: "nat \<Rightarrow> pystr" where
  "str_nat n = (if n < 10 then [48 + n] else str_nat (n div 10) @ [48 + n mod 10])"

definition str_int :: "int \<Rightarrow> pystr" where
  "str_int i = (if i < 0 then 45 # str_nat (nat (- i)) else str_nat (nat i))"


section \<open>Value Encoder and Command Serializer\<close>

text \<open>
  \<open>_converters[type(arg)](arg)\<close>: the table is keyed by the exact runtime type, so the
  lookup and the call of the entry are one case distinction on the value; a type without an
  entry raises KeyError. \<open>str\<close> on a float is CPython's shortest-repr formatting, taken as
  the parameter \<open>fs\<close>.
\<close>

fun converters :: "(64 word \<Rightarrow> string) \<Rightarrow> pyval \<Rightarrow> pyerror + blob" where
  "converters fs (PBytes b) = Inr (Bytes b)"
| "converters fs (PByteArray b) = Inr (Bytearray b)"
| "converters fs (PStr s) =
     (case utf8_encode s of Inl e \<Rightarrow> Inl e | Inr b \<Rightarrow> Inr (Bytes b))"
| "converters fs (PInt i) =
     (case utf8_encode (str_int i) of Inl e \<Rightarrow> Inl e | Inr b \<Rightarrow> Inr (Bytes b))"
| "converters fs (PFloat w) =
     (case utf8_encode (str (fs w)) of Inl e \<Rightarrow> Inl e | Inr b \<Rightarrow> Inr (Bytes b))"
| "converters fs v = Inl (KeyError (Missing_type (type_of v)))"

text \<open>\<open>_bytes_len\<close> without its cache.\<close>

definition bytes_len :: "nat \<Rightarrow> pyerror + bytes" where
  "bytes_len nsized = utf8_encode (str_nat nsized)"

text \<open>
  The loop of \<open>encode_command\<close> over \<open>args\<close>, with \<open>parts\<close> as accumulator. The bare
  \<open>except\<close> turns every failure inside the \<open>try\<close> into the TypeError naming \<open>arg\<close>.
\<close>

fun encode_parts :: "(64 word \<Rightarrow> string) \<Rightarrow> bytes list \<Rightarrow> pyval list \<Rightarrow> pyerror + bytes list" where
  "encode_parts fs parts [] = Inr parts"
| "encode_parts fs parts (arg # args) =
     (case converters fs arg of
        Inl _ \<Rightarrow> Inl (TypeError (Argument_expected arg))
      | Inr barg \<Rightarrow>
          (case bytes_len (length (data barg)) of
             Inl _ \<Rightarrow> Inl (TypeError (Argument_expected arg))
           | Inr n \<Rightarrow> encode_parts fs (parts @ [[0x24], n, crlf, data barg, crlf]) args))"

definition encode_command :: "(64 word \<Rightarrow> string) \<Rightarrow> pyval list \<Rightarrow> pyerror + bytes" where
  "encode_command fs args =
     (case bytes_len (length args) of
        Inl e \<Rightarrow> Inl e
      | Inr n \<Rightarrow>
          (case encode_parts fs [[0x2A], n, crlf] args of
             Inl e \<Rightarrow> Inl e
           | Inr parts \<Rightarrow> Inr (concat parts)))"

subsection \<open>The cache of \<open>_bytes_len\<close>\<close>

text \<open>
  \<open>functools.lru_cache(maxsize)\<close>: the entries, most recently used first. A hit moves the
  entry to the front; a miss calls the function and stores the result, dropping the least
  recently used entry when the cache is full; a call that raises stores nothing.
\<close>

type_synonym lru = "(nat \<times> bytes) list"

definition lru_cache :: "nat \<Rightarrow> (nat \<Rightarrow> pyerror + bytes) \<Rightarrow> lru \<Rightarrow> nat \<Rightarrow> (pyerror + bytes) \<times> lru" where
  "lru_cache maxsize f cache k =
     (case map_of cache k of
        Some v \<Rightarrow> (Inr v, (k, v) # filter (\<lambda>e. fst e \<noteq> k) cache)
      | None \<Rightarrow>
          (case f k of
             Inl e \<Rightarrow> (Inl e, cache)
           | Inr v \<Rightarrow>
               (Inr v, (k, v) # (if maxsize \<le> length cache then butlast cache else cache))))"

definition bytes_len_cached :: "lru \<Rightarrow> nat \<Rightarrow> (pyerror + bytes) \<times> lru" where
  "bytes_len_cached = lru_cache 1024 bytes_len"

fun encode_parts_cached ::
  "(64 word \<Rightarrow> string) \<Rightarrow> lru \<Rightarrow> bytes list \<Rightarrow> pyval list \<Rightarrow> (pyerror + bytes list) \<times> lru" where
  "encode_parts_cached fs cache parts [] = (Inr parts, cache)"
| "encode_parts_cached fs cache parts (arg # args) =
     (case converters fs arg of
        Inl _ \<Rightarrow> (Inl (TypeError (Argument_expected arg)), cache)
      | Inr barg \<Rightarrow>
          (case bytes_len_cached cache (length (data barg)) of
             (Inl _, cache') \<Rightarrow> (Inl (TypeError (Argument_expected arg)), cache')
           | (Inr n, cache') \<Rightarrow>
               encode_parts_cached fs cache' (parts @ [[0x24], n, crlf, data barg, crlf]) args))"

definition encode_command_cached ::
  "(64 word \<Rightarrow> string) \<Rightarrow> lru \<Rightarrow> pyval list \<Rightarrow> (pyerror + bytes) \<times> lru" where
  "encode_command_cached fs cache args =
     (case bytes_len_cached cache (length args) of
        (Inl e, cache') \<Rightarrow> (Inl e, cache')
      | (Inr n, cache') \<Rightarrow>
          (case encode_parts_cached fs cache' [[0x2A], n, crlf] args of
             (Inl e, cache'') \<Rightarrow> (Inl e, cache'')
           | (Inr parts, cache'') \<Rightarrow> (Inr (concat parts), cache'')))"

text \<open>The cache after a sequence of calls of \<open>encode_command\<close>.\<close>

fun cache_after :: "(64 word \<Rightarrow> string) \<Rightarrow> lru \<Rightarrow> pyval list list \<Rightarrow> lru" where
  "cache_after fs cache [] = cache"
| "cache_after fs cache (args # calls) =
     cache_after fs (snd (encode_command_cached fs cache args)) calls"

subsection \<open>The wire grammar and a reference parser\<close>

text \<open>
  The request grammar of the Redis protocol as the specification writes it:
  \<open>*<N>\r\n\<close> followed by \<open>$<len>\r\n<bytes>\r\n\<close> for each of the N arguments.
\<close>

definition decimal :: "nat \<Rightarrow> bytes" where
  "decimal n = map of_nat (str_nat n)"

definition bulk :: "bytes \<Rightarrow> bytes" where
  "bulk b = 0x24 # decimal (length b) @ crlf @ b @ crlf"

definition wire :: "bytes list \<Rightarrow> bytes" where
  "wire bs = 0x2A # decimal (length bs) @ crlf @ concat (map bulk bs)"

text \<open>The canonical binary encoding of an argument of a supported kind.\<close>

fun canonical :: "(64 word \<Rightarrow> string) \<Rightarrow> pyval \<Rightarrow> bytes option" where
  "canonical fs (PBytes b) = Some b"
| "canonical fs (PByteArray b) = Some b"
| "canonical fs (PStr s) = (case utf8_encode s of Inl _ \<Rightarrow> None | Inr b \<Rightarrow> Some b)"
| "canonical fs (PInt i) = Some (map of_nat (str_int i))"
| "canonical fs (PFloat w) = (case utf8_encode (str (fs w)) of Inl _ \<Rightarrow> None | Inr b \<Rightarrow> Some b)"
| "canonical fs v = None"

text \<open>
  A reference parser for that grammar: a length field is a non-empty run of decimal digits
  closed by CR LF; a bulk string is read by its length and must be closed by CR LF; nothing
  may follow the last bulk string.
\<close>

definition is_digit :: "byte \<Rightarrow> bool" where
  "is_digit b = (0x30 \<le> b \<and> b \<le> 0x39)"

definition digits_value :: "bytes \<Rightarrow> nat" where
  "digits_value ds = foldl (\<lambda>acc d. 10 * acc + (unat d - 48)) 0 ds"

definition parse_length :: "bytes \<Rightarrow> (nat \<times> bytes) option" where
  "parse_length inp =
     (let ds = takeWhile is_digit inp; rest = dropWhile is_digit inp
      in if ds \<noteq> [] \<and> take 2 rest = crlf then Some (digits_value ds, drop 2 rest) else None)"

fun parse_bulks :: "nat \<Rightarrow> bytes \<Rightarrow> bytes list option" where
  "parse_bulks 0 inp = (if inp = [] then Some [] else None)"
| "parse_bulks (Suc n) inp =
     (case inp of
        [] \<Rightarrow> None
      | c # inp1 \<Rightarrow>
          if c \<noteq> 0x24 then None
          else (case parse_length inp1 of
                  None \<Rightarrow> None
                | Some (len, inp2) \<Rightarrow>
                    if length inp2 < len + 2 \<or> take 2 (drop len inp2) \<noteq> crlf then None
                    else (case parse_bulks n (drop (len + 2) inp2) of
                            None \<Rightarrow> None
                          | Some bs \<Rightarrow> Some (take len inp2 # bs))))"

definition resp_parse :: "bytes \<Rightarrow> bytes list option" where
  "resp_parse inp =
     (case inp of
        [] \<Rightarrow> None
      | c # inp1 \<Rightarrow>
          if c \<noteq> 0x2A then None
          else (case parse_length inp1 of
                  None \<Rightarrow> None
                | Some (n, inp2) \<Rightarrow> parse_bulks n inp2))"

section \<open>Response Decoder\<close>


section \<open>Future Adapters\<close>

text \<open>
  An awaited future either raises or yields its result: \<open>pyerror + reply\<close>. An adapter
  returns the result unchanged (the queued sentinel) or a value of its own.
\<close>

datatype 'a adapted = Unchanged reply | Converted 'a

definition is_queued :: "reply \<Rightarrow> bool" where
  "is_queued res = (res = RBytes (ascii ''QUEUED'') \<or> res = RStr (str ''QUEUED''))"

definition wait_ok :: "pyerror + reply \<Rightarrow> pyerror + bool adapted" where
  "wait_ok fut =
     (case fut of
        Inl e \<Rightarrow> Inl e
      | Inr res \<Rightarrow>
          if is_queued res then Inr (Unchanged res)
          else Inr (Converted (res = RBytes (ascii ''OK'') \<or> res = RStr (str ''OK''))))"

text \<open>\<open>iter(res)\<close>: a list yields its elements, bytes its octets, a str its characters.\<close>

fun py_iter :: "reply \<Rightarrow> pyerror + reply list" where
  "py_iter (RList xs) = Inr xs"
| "py_iter (RBytes b) = Inr (map (\<lambda>x. RInt (uint x)) b)"
| "py_iter (RStr s) = Inr (map (\<lambda>c. RStr [c]) s)"
| "py_iter r = Inl (TypeError (Not_iterable (reply_type r)))"

text \<open>\<open>zip(it, it)\<close> over one iterator: an element without a partner ends the zip.\<close>

fun pairs :: "'a list \<Rightarrow> ('a \<times> 'a) list" where
  "pairs (k # v # rest) = (k, v) # pairs rest"
| "pairs _ = []"

text \<open>
  \<open>dict(pairs)\<close>: the entries in insertion order. A key that is already present keeps its
  place and takes the new value; a list is unhashable. On replies Python's \<open>==\<close> is
  equality of the values.
\<close>

type_synonym pydict = "(reply \<times> reply) list"

fun hashable :: "reply \<Rightarrow> bool" where
  "hashable (RList _) = False"
| "hashable _ = True"

fun dict_setitem :: "pydict \<Rightarrow> reply \<Rightarrow> reply \<Rightarrow> pydict" where
  "dict_setitem [] k v = [(k, v)]"
| "dict_setitem ((k', v') # d) k v =
     (if k' = k then (k', v) # d else (k', v') # dict_setitem d k v)"

fun dict_update :: "pydict \<Rightarrow> (reply \<times> reply) list \<Rightarrow> pyerror + pydict" where
  "dict_update d [] = Inr d"
| "dict_update d ((k, v) # kvs) =
     (if hashable k then dict_update (dict_setitem d k v) kvs
      else Inl (TypeError (Unhashable (reply_type k))))"

definition py_dict :: "(reply \<times> reply) list \<Rightarrow> pyerror + pydict" where
  "py_dict kvs = dict_update [] kvs"

definition wait_make_dict :: "pyerror + reply \<Rightarrow> pyerror + pydict adapted" where
  "wait_make_dict fut =
     (case fut of
        Inl e \<Rightarrow> Inl e
      | Inr res \<Rightarrow>
          if is_queued res then Inr (Unchanged res)
          else (case py_iter res of
                  Inl e \<Rightarrow> Inl e
                | Inr it \<Rightarrow>
                    (case py_dict (pairs it) of
                       Inl e \<Rightarrow> Inl e
                     | Inr d \<Rightarrow> Inr (Converted d))))"

section \<open>Key-Coercing Mapping\<close>

text \<open>
  The stored keys are bytes objects (nothing coerces on insertion, and the module's data
  model keeps every stored key binary), so the underlying dict is a map from octet
  strings. \<open>dict.__getitem__\<close> and \<open>dict.__contains__\<close> hash the key first: a
  bytearray is unhashable.
\<close>

type_synonym 'v coerced_keys_dict = "bytes \<rightharpoonup> 'v"

fun dict_getitem :: "'v coerced_keys_dict \<Rightarrow> blob \<Rightarrow> pyerror + 'v" where
  "dict_getitem d (Bytearray b) = Inl (TypeError (Unhashable T_bytearray))"
| "dict_getitem d (Bytes b) =
     (case d b of None \<Rightarrow> Inl (KeyError (Missing_key b)) | Some v \<Rightarrow> Inr v)"

fun dict_contains :: "'v coerced_keys_dict \<Rightarrow> blob \<Rightarrow> pyerror + bool" where
  "dict_contains d (Bytearray b) = Inl (TypeError (Unhashable T_bytearray))"
| "dict_contains d (Bytes b) = Inr (d b \<noteq> None)"

definition dict_store :: "'v coerced_keys_dict \<Rightarrow> bytes \<Rightarrow> 'v \<Rightarrow> 'v coerced_keys_dict" where
  "dict_store d k v = d(k \<mapsto> v)"

text \<open>
  The octets of a value for which \<open>isinstance(other, bytes)\<close> holds: a bytes object or an
  instance of a subclass of bytes, which hashes and compares as its octets.
\<close>

fun as_bytes :: "pyval \<Rightarrow> bytes option" where
  "as_bytes (PBytes b) = Some b"
| "as_bytes (PInst name v) = as_bytes v"
| "as_bytes _ = None"

definition getitem :: "(64 word \<Rightarrow> string) \<Rightarrow> 'v coerced_keys_dict \<Rightarrow> pyval \<Rightarrow> pyerror + 'v" where
  "getitem fs d other =
     (case as_bytes other of
        None \<Rightarrow> (case converters fs other of Inl e \<Rightarrow> Inl e | Inr k \<Rightarrow> dict_getitem d k)
      | Some b \<Rightarrow> dict_getitem d (Bytes b))"

definition contains :: "(64 word \<Rightarrow> string) \<Rightarrow> 'v coerced_keys_dict \<Rightarrow> pyval \<Rightarrow> pyerror + bool" where
  "contains fs d other =
     (case as_bytes other of
        None \<Rightarrow> (case converters fs other of Inl e \<Rightarrow> Inl e | Inr k \<Rightarrow> dict_contains d k)
      | Some b \<Rightarrow> dict_contains d (Bytes b))"

section \<open>Cursor Iterator\<close>

text \<open>
  The slots \<open>_cur\<close> and \<open>_ret\<close> of \<open>_BaseScanIter\<close>. The slot \<open>_scan\<close> is the supplied
  primitive: it runs against a world \<open>'w\<close> (the server and the transport), takes the cursor
  and raises or returns the next cursor and a page.
\<close>

record 'a scan_iter =
  cur :: reply
  ret :: "'a list"

type_synonym 'w scan = "'w \<Rightarrow> reply \<Rightarrow> (pyerror + reply \<times> reply list) \<times> 'w"

definition scan_iter_init :: "'a scan_iter" where
  "scan_iter_init = \<lparr>cur = RBytes (ascii ''0''), ret = []\<rparr>"

text \<open>The truth value of a cursor, as \<open>while ... and self._cur\<close> tests it.\<close>

fun truthy :: "reply \<Rightarrow> bool" where
  "truthy (RBytes b) = (b \<noteq> [])"
| "truthy (RStr s) = (s \<noteq> [])"
| "truthy (RInt i) = (i \<noteq> 0)"
| "truthy RNone = False"
| "truthy (RList xs) = (xs \<noteq> [])"

text \<open>
  The fetch loop of \<open>__anext__\<close>, which the two iterators share but for what they buffer:
  \<open>_ScanIter\<close> buffers the page (\<open>buffer\<close> is the identity), \<open>_ScanIterPairs\<close> buffers
  \<open>list(zip(ret[::2], ret[1::2]))\<close>. The loop may run forever: \<open>None\<close> is not returning.
\<close>

partial_function (option) fetch ::
  "(reply list \<Rightarrow> 'a list) \<Rightarrow> 'w scan \<Rightarrow> 'a scan_iter \<Rightarrow> 'w \<Rightarrow> (pyerror option \<times> 'a scan_iter \<times> 'w) option" where
  "fetch buffer scan self w =
     (if ret self = [] \<and> truthy (cur self) then
        (case scan w (cur self) of
           (Inl e, w') \<Rightarrow> Some (Some e, self, w')
         | (Inr (c, page), w') \<Rightarrow> fetch buffer scan (self\<lparr>cur := c, ret := buffer page\<rparr>) w')
      else Some (None, self, w))"

definition anext ::
  "(reply list \<Rightarrow> 'a list) \<Rightarrow> 'w scan \<Rightarrow> 'a scan_iter \<Rightarrow> 'w \<Rightarrow> ((pyerror + 'a) \<times> 'a scan_iter \<times> 'w) option" where
  "anext buffer scan self w =
     (case fetch buffer scan self w of
        None \<Rightarrow> None
      | Some (Some e, self', w') \<Rightarrow> Some (Inl e, self', w')
      | Some (None, self', w') \<Rightarrow>
          if \<not> truthy (cur self') \<and> ret self' = [] then Some (Inl StopAsyncIteration, self', w')
          else (case ret self' of
                  [] \<Rightarrow> Some (Inl IndexError, self', w')
                | x # xs \<Rightarrow> Some (Inr x, self'\<lparr>ret := xs\<rparr>, w')))"

text \<open>\<open>ret[::2]\<close> and \<open>ret[1::2]\<close>.\<close>

fun slice_even :: "'a list \<Rightarrow> 'a list" where
  "slice_even [] = []"
| "slice_even [x] = [x]"
| "slice_even (x # y # xs) = x # slice_even xs"

fun slice_odd :: "'a list \<Rightarrow> 'a list" where
  "slice_odd [] = []"
| "slice_odd [x] = []"
| "slice_odd (x # y # xs) = y # slice_odd xs"

definition ScanIter_anext ::
  "'w scan \<Rightarrow> reply scan_iter \<Rightarrow> 'w \<Rightarrow> ((pyerror + reply) \<times> reply scan_iter \<times> 'w) option" where
  "ScanIter_anext = anext (\<lambda>page. page)"

definition ScanIterPairs_anext ::
  "'w scan \<Rightarrow> (reply \<times> reply) scan_iter \<Rightarrow> 'w
     \<Rightarrow> ((pyerror + reply \<times> reply) \<times> (reply \<times> reply) scan_iter \<times> 'w) option" where
  "ScanIterPairs_anext = anext (\<lambda>page. zip (slice_even page) (slice_odd page))"

text \<open>
  \<open>async for\<close> over an iterator: the items it yields until \<open>__anext__\<close> raises, and the
  exception that ends the loop (StopAsyncIteration is the normal end).
\<close>

partial_function (option) async_for ::
  "(reply list \<Rightarrow> 'a list) \<Rightarrow> 'w scan \<Rightarrow> 'a scan_iter \<Rightarrow> 'w \<Rightarrow> 'a list \<Rightarrow> ('a list \<times> pyerror) option" where
  "async_for buffer scan self w yielded =
     (case anext buffer scan self w of
        None \<Rightarrow> None
      | Some (Inl e, self', w') \<Rightarrow> Some (yielded, e)
      | Some (Inr x, self', w') \<Rightarrow> async_for buffer scan self' w' (yielded @ [x]))"

text \<open>
  A primitive that plays back a script of pages, whatever the cursor it is called with, and
  raises when the script is used up.
\<close>

definition scripted :: "(reply \<times> reply list) list scan" where
  "scripted w c =
     (case w of
        [] \<Rightarrow> (Inl (Raised ''no more pages''), [])
      | p # ps \<Rightarrow> (Inr p, ps))"

text \<open>A primitive that answers every call with the same cursor and page.\<close>

definition answering :: "reply \<times> reply list \<Rightarrow> 'w scan" where
  "answering p w c = (Inr p, w)"

section \<open>Settling a waiter future\<close>

text \<open>
  The states of an \<open>asyncio.Future\<close>; \<open>done()\<close> holds in every state but pending. The log
  records the futures handed to \<open>logger.debug\<close>. Assertions are enabled.
\<close>

datatype ('a, 'e) future = Pending | Cancelled | Result 'a | Exception 'e

definition future_done :: "('a, 'e) future \<Rightarrow> bool" where
  "future_done fut = (fut \<noteq> Pending)"

definition future_cancelled :: "('a, 'e) future \<Rightarrow> bool" where
  "future_cancelled fut = (fut = Cancelled)"

definition set_result ::
  "('a, 'e) future \<times> ('a, 'e) future list \<Rightarrow> 'a
     \<Rightarrow> (pyerror + unit) \<times> ('a, 'e) future \<times> ('a, 'e) future list" where
  "set_result st result =
     (case st of (fut, log) \<Rightarrow>
        if future_done fut then
          (if future_cancelled fut then (Inr (), fut, log @ [fut])
           else (Inl AssertionError, fut, log @ [fut]))
        else (Inr (), Result result, log))"

definition set_exception ::
  "('a, 'e) future \<times> ('a, 'e) future list \<Rightarrow> 'e
     \<Rightarrow> (pyerror + unit) \<times> ('a, 'e) future \<times> ('a, 'e) future list" where
  "set_exception st exception =
     (case st of (fut, log) \<Rightarrow>
        if future_done fut then
          (if future_cancelled fut then (Inr (), fut, log @ [fut])
           else (Inl AssertionError, fut, log @ [fut]))
        else (Inr (), Exception exception, log))"

section \<open>Predicates used in the statements\<close>

text \<open>A Unicode scalar value: a code point that is not a surrogate.\<close>

definition scalar :: "nat \<Rightarrow> bool" where
  "scalar c = (c < 0xD800 \<or> (0xE000 \<le> c \<and> c < 0x110000))"

text \<open>The types with an entry in \<open>_converters\<close>.\<close>

definition supported_types :: "pytype list" where
  "supported_types = [T_bytes, T_bytearray, T_str, T_int, T_float]"

definition supported :: "pyval \<Rightarrow> bool" where
  "supported a = (type_of a \<in> set supported_types)"

text \<open>A text argument is encodable when UTF-8 can encode it; every other value is.\<close>

fun encodable :: "pyval \<Rightarrow> bool" where
  "encodable (PStr s) = list_all scalar s"
| "encodable _ = True"



section \<open>Facts about the conversions\<close>

declare str_nat.simps [simp del]

lemma utf8_encode_ascii: "\<forall>c\<in>set s. c < 128 \<Longrightarrow> utf8_encode s = Inr (map of_nat s)"
  by (induction s) (auto simp: utf8_code_point_def)

lemma str_nat_digits: "c \<in> set (str_nat n) \<Longrightarrow> 48 \<le> c \<and> c \<le> 57"
proof (induction n arbitrary: c rule: str_nat.induct)
  case (1 n)
  show ?case
  proof (cases "n < 10")
    case True
    with "1.prems" show ?thesis by (simp add: str_nat.simps [of n])
  next
    case False
    with "1.prems" have "c \<in> set (str_nat (n div 10)) \<or> c = 48 + n mod 10"
      by (auto simp add: str_nat.simps [of n])
    with "1.IH" False show ?thesis by auto
  qed
qed

lemma str_nat_not_Nil: "str_nat n \<noteq> []"
  by (simp add: str_nat.simps [of n])

lemma bytes_len_decimal: "bytes_len n = Inr (decimal n)"
  unfolding bytes_len_def decimal_def
  by (rule utf8_encode_ascii) (auto dest: str_nat_digits)

lemma utf8_encode_str_int: "utf8_encode (str_int i) = Inr (map of_nat (str_int i))"
  by (rule utf8_encode_ascii) (auto simp: str_int_def dest: str_nat_digits)

lemma utf8_code_point_char: "c < 256 \<Longrightarrow> \<exists>b. utf8_code_point c = Inr b"
  by (simp add: utf8_code_point_def)

lemma utf8_encode_chars: "\<forall>c\<in>set s. c < 256 \<Longrightarrow> \<exists>b. utf8_encode s = Inr b"
proof (induction s)
  case Nil
  then show ?case by simp
next
  case (Cons c s)
  then obtain b bs where "utf8_code_point c = Inr b" "utf8_encode s = Inr bs"
    using utf8_code_point_char [of c] by auto
  then show ?case by simp
qed

lemma of_char_less_256: "(of_char c :: nat) < 256"
  by (cases c) simp

lemma utf8_encode_str: "\<exists>b. utf8_encode (str s) = Inr b"
  by (rule utf8_encode_chars) (auto simp: str_def of_char_less_256)

lemma utf8_code_point_scalar: "(\<exists>b. utf8_code_point c = Inr b) = scalar c"
  by (auto simp: utf8_code_point_def scalar_def)

lemma utf8_encode_scalar: "(\<exists>b. utf8_encode s = Inr b) = list_all scalar s"
proof (induction s)
  case Nil
  then show ?case by simp
next
  case (Cons c s)
  show ?case
  proof (cases "utf8_code_point c")
    case (Inl e)
    with utf8_code_point_scalar [of c] show ?thesis by auto
  next
    case (Inr b)
    with utf8_code_point_scalar [of c] have "scalar c" by auto
    with Inr Cons show ?thesis by (cases "utf8_encode s") auto
  qed
qed

lemma encode_parts_ok:
  "map (canonical fs) args = map Some bs \<Longrightarrow>
   encode_parts fs parts args =
     Inr (parts @ concat (map (\<lambda>b. [[0x24], decimal (length b), crlf, b, crlf]) bs))"
proof (induction args arbitrary: parts bs)
  case Nil
  then show ?case by simp
next
  case (Cons a args)
  then obtain b bs' where bs: "bs = b # bs'" and b: "canonical fs a = Some b"
    and rest: "map (canonical fs) args = map Some bs'"
    by (cases bs) auto
  from b have "converters fs a = Inr (Bytes b) \<or> converters fs a = Inr (Bytearray b)"
    by (cases a) (auto simp: utf8_encode_str_int split: sum.splits)
  then have "\<exists>k. converters fs a = Inr k \<and> data k = b" by auto
  then obtain k where k: "converters fs a = Inr k" "data k = b" by blast
  show ?case
    using Cons.IH [OF rest] k by (simp add: bs bytes_len_decimal)
qed

lemma concat_bulk:
  "concat (concat (map (\<lambda>b. [[0x24], decimal (length b), crlf, b, crlf]) bs)) = concat (map bulk bs)"
  by (induction bs) (simp_all add: bulk_def)

lemma encode_command_ok:
  "map (canonical fs) args = map Some bs \<Longrightarrow> encode_command fs args = Inr (wire bs)"
proof -
  assume a: "map (canonical fs) args = map Some bs"
  then have "length args = length bs" by (metis length_map)
  then show ?thesis
    by (simp add: encode_command_def bytes_len_decimal encode_parts_ok [OF a] wire_def concat_bulk)
qed

section \<open>The reference parser reads back what the grammar writes\<close>

lemma digit_byte: "48 \<le> c \<Longrightarrow> c \<le> 57 \<Longrightarrow> is_digit (of_nat c) \<and> unat (of_nat c :: byte) = c"
proof -
  assume a: "48 \<le> c" "c \<le> 57"
  then have u: "unat (of_nat c :: byte) = c"
    by (simp add: unat_of_nat)
  have "unat (0x30 :: byte) = 48" "unat (0x39 :: byte) = 57" by simp_all
  with u a show ?thesis
    unfolding is_digit_def word_le_nat_alt by simp
qed

lemma decimal_digits: "b \<in> set (decimal n) \<Longrightarrow> is_digit b"
  unfolding decimal_def using digit_byte str_nat_digits by auto

lemma decimal_not_Nil: "decimal n \<noteq> []"
  by (simp add: decimal_def str_nat_not_Nil)

lemma digits_value_snoc:
  "digits_value (ds @ [d]) = 10 * digits_value ds + (unat d - 48)"
  by (simp add: digits_value_def)

lemma digits_value_decimal: "digits_value (decimal n) = n"
proof (induction n rule: str_nat.induct)
  case (1 n)
  show ?case
  proof (cases "n < 10")
    case True
    then have "unat (of_nat (48 + n) :: byte) = 48 + n"
      using digit_byte [of "48 + n"] by simp
    with True show ?thesis
      by (simp add: decimal_def str_nat.simps [of n] digits_value_def)
  next
    case False
    have u: "unat (of_nat (48 + n mod 10) :: byte) = 48 + n mod 10"
      using digit_byte [of "48 + n mod 10"] by simp
    have "decimal n = decimal (n div 10) @ [of_nat (48 + n mod 10)]"
      using False by (simp add: decimal_def str_nat.simps [of n])
    then have "digits_value (decimal n) = 10 * digits_value (decimal (n div 10)) + n mod 10"
      using u by (simp add: digits_value_snoc)
    with "1.IH" False show ?thesis by simp
  qed
qed

lemma not_digit_cr: "\<not> is_digit 0x0D"
  by (simp add: is_digit_def)

lemma parse_length_decimal: "parse_length (decimal n @ crlf @ rest) = Some (n, rest)"
proof -
  have t: "takeWhile is_digit (decimal n @ crlf @ rest) = decimal n"
    using decimal_digits [of _ n] not_digit_cr
    by (simp add: takeWhile_append2 crlf_def)
  have d: "dropWhile is_digit (decimal n @ crlf @ rest) = crlf @ rest"
    using decimal_digits [of _ n] not_digit_cr
    by (simp add: dropWhile_append2 crlf_def)
  show ?thesis
    unfolding parse_length_def t d
    by (simp add: Let_def decimal_not_Nil digits_value_decimal crlf_def)
qed

lemma take_crlf: "take 2 (crlf @ r) = crlf"
  by (simp add: crlf_def)

lemma drop_crlf: "drop 2 (crlf @ r) = r"
  by (simp add: crlf_def)

lemma length_crlf: "length crlf = 2"
  by (simp add: crlf_def)

lemma parse_bulks_bulk:
  "parse_bulks (length bs) (concat (map bulk bs)) = Some bs"
proof (induction bs)
  case Nil
  then show ?case by simp
next
  case (Cons b bs)
  have inp: "concat (map bulk (b # bs))
          = 0x24 # (decimal (length b) @ crlf @ (b @ crlf @ concat (map bulk bs)))"
    by (simp add: bulk_def)
  have "parse_bulks (Suc (length bs)) (concat (map bulk (b # bs))) = Some (b # bs)"
    unfolding inp
    using Cons.IH
    by (simp add: parse_length_decimal take_crlf drop_crlf length_crlf)
  then show ?case by simp
qed

lemma resp_parse_wire: "resp_parse (wire bs) = Some bs"
  by (simp add: resp_parse_def wire_def parse_length_decimal parse_bulks_bulk)

section \<open>The Command Serializer\<close>

lemma converters_Inr_iff: "(\<exists>k. converters fs a = Inr k) = (supported a \<and> encodable a)"
proof (cases a)
  case (PStr s)
  then show ?thesis
    using utf8_encode_scalar [of s]
    by (auto simp: supported_def supported_types_def split: sum.splits)
next
  case (PFloat w)
  then show ?thesis
    using utf8_encode_str [of "fs w"]
    by (auto simp: supported_def supported_types_def split: sum.splits)
qed (auto simp: supported_def supported_types_def utf8_encode_str_int)

lemma canonical_Some_iff: "(\<exists>b. canonical fs a = Some b) = (supported a \<and> encodable a)"
proof (cases a)
  case (PStr s)
  then show ?thesis
    using utf8_encode_scalar [of s]
    by (auto simp: supported_def supported_types_def split: sum.splits)
next
  case (PFloat w)
  then show ?thesis
    using utf8_encode_str [of "fs w"]
    by (auto simp: supported_def supported_types_def split: sum.splits)
qed (auto simp: supported_def supported_types_def)

lemma canonical_list:
  "\<forall>a\<in>set args. supported a \<and> encodable a \<Longrightarrow> \<exists>bs. map (canonical fs) args = map Some bs"
proof (induction args)
  case Nil
  then show ?case by simp
next
  case (Cons a args)
  then obtain bs where bs: "map (canonical fs) args = map Some bs" by auto
  from Cons.prems obtain b where "canonical fs a = Some b"
    using canonical_Some_iff [of fs a] by auto
  with bs have "map (canonical fs) (a # args) = map Some (b # bs)" by simp
  then show ?case by blast
qed

text \<open>
  Claim C1, as amended. For every argument list whose elements are of the supported kinds
  (bytes, bytearray, str, int, float) and whose text elements UTF-8 can encode (no surrogate
  code point), \<open>encode_command\<close> returns exactly the buffer of the wire grammar over the
  arguments' canonical encodings, in order, each with its byte length, and the reference
  parser reads those encodings back from the buffer. With \<open>str(3.14) = '3.14'\<close>, the
  arguments \<open>"SET", "key", 42, 3.14\<close> give
  \<open>*4\r\n$3\r\nSET\r\n$3\r\nkey\r\n$2\r\n42\r\n$4\r\n3.14\r\n\<close>.
\<close>

theorem encode_command_wire:
  assumes "\<forall>a\<in>set args. supported a \<and> encodable a"
  shows "(\<exists>bs. map (canonical fs) args = map Some bs
            \<and> encode_command fs args = Inr (wire bs)
            \<and> resp_parse (wire bs) = Some bs)
       \<and> (fs 0x40091EB851EB851F = ''3.14'' \<longrightarrow>
            encode_command fs
              [PStr (str ''SET''), PStr (str ''key''), PInt 42, PFloat 0x40091EB851EB851F]
            = Inr (ascii ''*4'' @ crlf @ ascii ''$3'' @ crlf @ ascii ''SET'' @ crlf
                   @ ascii ''$3'' @ crlf @ ascii ''key'' @ crlf @ ascii ''$2'' @ crlf
                   @ ascii ''42'' @ crlf @ ascii ''$4'' @ crlf @ ascii ''3.14'' @ crlf))"
proof
  from canonical_list [OF assms] obtain bs where bs: "map (canonical fs) args = map Some bs"
    by blast
  then show "\<exists>bs. map (canonical fs) args = map Some bs
            \<and> encode_command fs args = Inr (wire bs)
            \<and> resp_parse (wire bs) = Some bs"
    using encode_command_ok [OF bs] resp_parse_wire [of bs] by blast
next
  show "fs 0x40091EB851EB851F = ''3.14'' \<longrightarrow>
            encode_command fs
              [PStr (str ''SET''), PStr (str ''key''), PInt 42, PFloat 0x40091EB851EB851F]
            = Inr (ascii ''*4'' @ crlf @ ascii ''$3'' @ crlf @ ascii ''SET'' @ crlf
                   @ ascii ''$3'' @ crlf @ ascii ''key'' @ crlf @ ascii ''$2'' @ crlf
                   @ ascii ''42'' @ crlf @ ascii ''$4'' @ crlf @ ascii ''3.14'' @ crlf)"
    by (simp add: encode_command_def bytes_len_def str_nat.simps str_int_def str_def ascii_def
        crlf_def utf8_code_point_def)
qed

text \<open>The theorem at the arguments \<open>"SET", "key", 42, 3.14\<close>.\<close>

theorem encode_command_wire_witness:
  "list_all (\<lambda>a. supported a \<and> encodable a)
     [PStr (str ''SET''), PStr (str ''key''), PInt 42, PFloat 0x40091EB851EB851F]
   \<and> encode_command (\<lambda>_. ''3.14'')
        [PStr (str ''SET''), PStr (str ''key''), PInt 42, PFloat 0x40091EB851EB851F]
      = Inr (ascii ''*4'' @ crlf @ ascii ''$3'' @ crlf @ ascii ''SET'' @ crlf
             @ ascii ''$3'' @ crlf @ ascii ''key'' @ crlf @ ascii ''$2'' @ crlf
             @ ascii ''42'' @ crlf @ ascii ''$4'' @ crlf @ ascii ''3.14'' @ crlf)
   \<and> resp_parse (wire [ascii ''SET'', ascii ''key'', ascii ''42'', ascii ''3.14''])
      = Some [ascii ''SET'', ascii ''key'', ascii ''42'', ascii ''3.14'']"
proof -
  let ?args = "[PStr (str ''SET''), PStr (str ''key''), PInt 42, PFloat 0x40091EB851EB851F]"
  let ?fs = "\<lambda>_::64 word. ''3.14''"
  have h: "\<forall>a\<in>set ?args. supported a \<and> encodable a"
    by (simp add: supported_def supported_types_def str_def scalar_def)
  note th = encode_command_wire [OF h, of ?fs]
  have e: "encode_command ?fs ?args
      = Inr (ascii ''*4'' @ crlf @ ascii ''$3'' @ crlf @ ascii ''SET'' @ crlf
             @ ascii ''$3'' @ crlf @ ascii ''key'' @ crlf @ ascii ''$2'' @ crlf
             @ ascii ''42'' @ crlf @ ascii ''$4'' @ crlf @ ascii ''3.14'' @ crlf)"
    by (rule mp [OF conjunct2 [OF th]]) (rule refl)
  from conjunct1 [OF th]
  obtain bs where bs: "map (canonical ?fs) ?args = map Some bs"
    and w: "encode_command ?fs ?args = Inr (wire bs)"
    and p: "resp_parse (wire bs) = Some bs"
    by blast
  have c: "map (canonical ?fs) ?args
      = map Some [ascii ''SET'', ascii ''key'', ascii ''42'', ascii ''3.14'']"
    by (simp add: str_def ascii_def utf8_code_point_def str_int_def str_nat.simps)
  have "inj (Some :: bytes \<Rightarrow> bytes option)" by (simp add: inj_def)
  with bs c have "bs = [ascii ''SET'', ascii ''key'', ascii ''42'', ascii ''3.14'']"
    by (metis inj_map_eq_map)
  with h p e show ?thesis by (simp add: list_all_iff)
qed

text \<open>
  Claim C1 as first stated fails: a str holding a lone surrogate is of a supported kind, and
  \<open>encode_command('\ud800')\<close> raises TypeError instead of returning a buffer.
\<close>

theorem encode_command_wire_counterexample:
  "supported (PStr [0xD800])
   \<and> encode_command (\<lambda>_. ''0.0'') [PStr [0xD800]]
       = Inl (TypeError (Argument_expected (PStr [0xD800])))"
  by (simp add: supported_def supported_types_def encode_command_def bytes_len_def
      str_nat.simps utf8_code_point_def)

lemma encode_parts_fail:
  "\<exists>a\<in>set args. \<not> (supported a \<and> encodable a) \<Longrightarrow>
   \<exists>pre b post. args = pre @ b # post
      \<and> (\<forall>x\<in>set pre. supported x \<and> encodable x)
      \<and> \<not> (supported b \<and> encodable b)
      \<and> encode_parts fs parts args = Inl (TypeError (Argument_expected b))"
proof (induction args arbitrary: parts)
  case Nil
  then show ?case by simp
next
  case (Cons a args)
  show ?case
  proof (cases "supported a \<and> encodable a")
    case False
    then have "\<not> (\<exists>k. converters fs a = Inr k)"
      by (simp add: converters_Inr_iff)
    then have "encode_parts fs parts (a # args) = Inl (TypeError (Argument_expected a))"
      by (cases "converters fs a") auto
    with False have "a # args = [] @ a # args
      \<and> (\<forall>x\<in>set []. supported x \<and> encodable x)
      \<and> \<not> (supported a \<and> encodable a)
      \<and> encode_parts fs parts (a # args) = Inl (TypeError (Argument_expected a))"
      by simp
    then show ?thesis by blast
  next
    case True
    then obtain k where k: "converters fs a = Inr k"
      using converters_Inr_iff [of fs a] by blast
    from True Cons.prems have "\<exists>a\<in>set args. \<not> (supported a \<and> encodable a)" by auto
    from Cons.IH [OF this, of "parts @ [[0x24], decimal (length (data k)), crlf, data k, crlf]"]
    obtain pre b post where r: "args = pre @ b # post"
      "\<forall>x\<in>set pre. supported x \<and> encodable x" "\<not> (supported b \<and> encodable b)"
      "encode_parts fs (parts @ [[0x24], decimal (length (data k)), crlf, data k, crlf]) args
         = Inl (TypeError (Argument_expected b))"
      by blast
    with True k have "a # args = (a # pre) @ b # post
      \<and> (\<forall>x\<in>set (a # pre). supported x \<and> encodable x)
      \<and> \<not> (supported b \<and> encodable b)
      \<and> encode_parts fs parts (a # args) = Inl (TypeError (Argument_expected b))"
      by (simp add: bytes_len_decimal)
    then show ?thesis by blast
  qed
qed

lemma encode_command_rejects:
  assumes "\<exists>a\<in>set args. \<not> supported a"
  shows "\<exists>pre b post. args = pre @ b # post
      \<and> (\<forall>x\<in>set pre. supported x \<and> encodable x)
      \<and> \<not> (supported b \<and> encodable b)
      \<and> encode_command fs args = Inl (TypeError (Argument_expected b))"
proof -
  from assms have "\<exists>a\<in>set args. \<not> (supported a \<and> encodable a)" by auto
  from encode_parts_fail [OF this, of fs "[[0x2A], decimal (length args), crlf]"]
  obtain pre b post where r: "args = pre @ b # post"
    "\<forall>x\<in>set pre. supported x \<and> encodable x" "\<not> (supported b \<and> encodable b)"
    and f: "encode_parts fs [[0x2A], decimal (length args), crlf] args
         = Inl (TypeError (Argument_expected b))"
    by blast
  from f have "encode_command fs args = Inl (TypeError (Argument_expected b))"
    by (simp add: encode_command_def bytes_len_decimal)
  with r show ?thesis by blast
qed

text \<open>
  Claim C6, as amended. For every argument list that holds a value of a kind outside the
  supported ones, \<open>encode_command\<close> raises its TypeError and returns no buffer, not even the
  part built from the arguments before the failure. The TypeError names the first argument
  that the encoder cannot encode: the first value of an unsupported kind when UTF-8 can encode
  every text argument, and otherwise possibly a text with a surrogate code point that stands
  before it.
\<close>

theorem encode_command_unsupported:
  assumes "\<exists>a\<in>set args. \<not> supported a"
  shows "\<exists>pre b post. args = pre @ b # post
      \<and> (\<forall>x\<in>set pre. supported x \<and> encodable x)
      \<and> \<not> (supported b \<and> encodable b)
      \<and> ((\<forall>x\<in>set args. encodable x) \<longrightarrow> \<not> supported b)
      \<and> encode_command fs args = Inl (TypeError (Argument_expected b))"
proof -
  from encode_command_rejects [OF assms, of fs]
  obtain pre b post where r: "args = pre @ b # post"
    "\<forall>x\<in>set pre. supported x \<and> encodable x" "\<not> (supported b \<and> encodable b)"
    "encode_command fs args = Inl (TypeError (Argument_expected b))"
    by blast
  from r(1) have "b \<in> set args" by simp
  with r(3) have "(\<forall>x\<in>set args. encodable x) \<longrightarrow> \<not> supported b" by blast
  with r show ?thesis by blast
qed

text \<open>The theorem at the arguments \<open>"SET", [], 1\<close>.\<close>

theorem encode_command_unsupported_witness:
  "(\<exists>a\<in>set [PStr (str ''SET''), PList [], PInt 1]. \<not> supported a)
   \<and> list_all encodable [PStr (str ''SET''), PList [], PInt 1]
   \<and> (\<exists>pre b post. [PStr (str ''SET''), PList [], PInt 1] = pre @ b # post
      \<and> (\<forall>x\<in>set pre. supported x \<and> encodable x)
      \<and> \<not> supported b
      \<and> encode_command (\<lambda>_. ''0.0'') [PStr (str ''SET''), PList [], PInt 1]
          = Inl (TypeError (Argument_expected b)))
   \<and> encode_command (\<lambda>_. ''0.0'') [PStr (str ''SET''), PList [], PInt 1]
          = Inl (TypeError (Argument_expected (PList [])))"
proof -
  let ?args = "[PStr (str ''SET''), PList [], PInt 1]"
  have h: "\<exists>a\<in>set ?args. \<not> supported a"
    by (simp add: supported_def supported_types_def)
  have e: "\<forall>x\<in>set ?args. encodable x" by (simp add: str_def scalar_def)
  from encode_command_unsupported [OF h, of "\<lambda>_. ''0.0''"] e
  have 1: "\<exists>pre b post. ?args = pre @ b # post
      \<and> (\<forall>x\<in>set pre. supported x \<and> encodable x)
      \<and> \<not> supported b
      \<and> encode_command (\<lambda>_. ''0.0'') ?args = Inl (TypeError (Argument_expected b))"
    by blast
  have 2: "encode_command (\<lambda>_. ''0.0'') ?args = Inl (TypeError (Argument_expected (PList [])))"
    by (simp add: encode_command_def bytes_len_def str_nat.simps str_def utf8_code_point_def)
  from e have e': "list_all encodable ?args" by (simp only: list_all_iff)
  from h e' 1 2 show ?thesis by blast
qed

text \<open>
  Claim C6 as first stated fails: on \<open>'\ud800', []\<close> the TypeError names the str, a value
  of a supported kind, and not the list, the value of an unsupported kind.
\<close>

theorem encode_command_unsupported_counterexample:
  "supported (PStr [0xD800]) \<and> \<not> supported (PList [])
   \<and> encode_command (\<lambda>_. ''0.0'') [PStr [0xD800], PList []]
       = Inl (TypeError (Argument_expected (PStr [0xD800])))"
  by (simp add: supported_def supported_types_def encode_command_def bytes_len_def
      str_nat.simps utf8_code_point_def)

section \<open>Exact-type dispatch and the Key-Coercing Mapping\<close>

lemma type_in_mro: "t \<in> set (mro t)"
  by (cases t) simp_all

lemma as_bytes_isinstance: "(as_bytes a \<noteq> None) = py_isinstance a T_bytes"
  by (induction a) (simp_all add: py_isinstance_def)

lemma converters_unsupported:
  "\<not> supported a \<Longrightarrow> converters fs a = Inl (KeyError (Missing_type (type_of a)))"
  by (cases a) (simp_all add: supported_def supported_types_def)

lemma strict_subclass_unsupported:
  "base \<in> set supported_types \<Longrightarrow> strict_subclass (type_of a) base \<Longrightarrow> \<not> supported a"
  by (cases a) (auto simp: supported_def supported_types_def strict_subclass_def)

lemma getitem_unsupported:
  "\<not> supported a \<Longrightarrow> \<not> py_isinstance a T_bytes \<Longrightarrow>
   getitem fs d a = Inl (KeyError (Missing_type (type_of a)))
   \<and> contains fs d a = Inl (KeyError (Missing_type (type_of a)))"
proof -
  assume u: "\<not> supported a" and b: "\<not> py_isinstance a T_bytes"
  from b have "as_bytes a = None" using as_bytes_isinstance [of a] by simp
  with converters_unsupported [OF u] show ?thesis
    by (simp add: getitem_def contains_def)
qed

text \<open>
  Claim C10, as amended. The encoder dispatches on the exact runtime type: a value whose
  type is a strict subclass of a supported type (\<open>bool\<close> under \<open>int\<close>, a user-defined
  subclass) has no entry in \<open>_converters\<close>; \<open>encode_command\<close> raises its TypeError for
  every argument list that holds such a value; a lookup or membership test of the
  Key-Coercing Mapping with such a key raises the KeyError of the table, unless the key is an
  instance of \<open>bytes\<close>: the mapping tests \<open>isinstance(other, bytes)\<close>, so an instance of a
  subclass of bytes is looked up as it is, by its octets.
\<close>

theorem exact_type_dispatch:
  assumes "base \<in> set supported_types" and "strict_subclass (type_of a) base"
  shows "converters fs a = Inl (KeyError (Missing_type (type_of a)))
     \<and> (a \<in> set args \<longrightarrow> (\<exists>b. encode_command fs args = Inl (TypeError (Argument_expected b))))
     \<and> (\<not> py_isinstance a T_bytes \<longrightarrow>
          getitem fs d a = Inl (KeyError (Missing_type (type_of a)))
          \<and> contains fs d a = Inl (KeyError (Missing_type (type_of a))))
     \<and> (py_isinstance a T_bytes \<longrightarrow>
          (\<exists>b. as_bytes a = Some b \<and> getitem fs d a = dict_getitem d (Bytes b)
              \<and> contains fs d a = dict_contains d (Bytes b)))"
proof -
  from assms have u: "\<not> supported a" by (rule strict_subclass_unsupported)
  have 1: "converters fs a = Inl (KeyError (Missing_type (type_of a)))"
    using u by (rule converters_unsupported)
  have 2: "a \<in> set args \<longrightarrow> (\<exists>b. encode_command fs args = Inl (TypeError (Argument_expected b)))"
  proof
    assume "a \<in> set args"
    with u have "\<exists>a\<in>set args. \<not> supported a" by blast
    from encode_command_rejects [OF this, of fs]
    show "\<exists>b. encode_command fs args = Inl (TypeError (Argument_expected b))" by blast
  qed
  have 3: "\<not> py_isinstance a T_bytes \<longrightarrow>
          getitem fs d a = Inl (KeyError (Missing_type (type_of a)))
          \<and> contains fs d a = Inl (KeyError (Missing_type (type_of a)))"
    using getitem_unsupported [OF u] by blast
  have 4: "py_isinstance a T_bytes \<longrightarrow>
          (\<exists>b. as_bytes a = Some b \<and> getitem fs d a = dict_getitem d (Bytes b)
              \<and> contains fs d a = dict_contains d (Bytes b))"
  proof
    assume "py_isinstance a T_bytes"
    then obtain b where "as_bytes a = Some b"
      using as_bytes_isinstance [of a] by auto
    then show "\<exists>b. as_bytes a = Some b \<and> getitem fs d a = dict_getitem d (Bytes b)
              \<and> contains fs d a = dict_contains d (Bytes b)"
      by (simp add: getitem_def contains_def)
  qed
  from 1 2 3 4 show ?thesis by blast
qed

text \<open>
  The theorem at \<open>True\<close>, an instance of \<open>bool\<close>, and at \<open>B(b'1')\<close>, an instance of
  \<open>class B(bytes)\<close>.
\<close>

theorem exact_type_dispatch_witness:
  "T_int \<in> set supported_types \<and> strict_subclass (type_of (PBool True)) T_int
   \<and> converters (\<lambda>_. ''0.0'') (PBool True) = Inl (KeyError (Missing_type T_bool))
   \<and> PBool True \<in> set [PInt 1, PBool True]
   \<and> (\<exists>b. encode_command (\<lambda>_. ''0.0'') [PInt 1, PBool True]
            = Inl (TypeError (Argument_expected b)))
   \<and> \<not> py_isinstance (PBool True) T_bytes
   \<and> getitem (\<lambda>_. ''0.0'') (dict_store Map.empty (ascii ''1'') (7::nat)) (PBool True)
       = Inl (KeyError (Missing_type T_bool))
   \<and> contains (\<lambda>_. ''0.0'') (dict_store Map.empty (ascii ''1'') (7::nat)) (PBool True)
       = Inl (KeyError (Missing_type T_bool))
   \<and> T_bytes \<in> set supported_types
   \<and> strict_subclass (type_of (PInst ''B'' (PBytes (ascii ''1'')))) T_bytes
   \<and> py_isinstance (PInst ''B'' (PBytes (ascii ''1''))) T_bytes
   \<and> (\<exists>b. as_bytes (PInst ''B'' (PBytes (ascii ''1''))) = Some b
         \<and> getitem (\<lambda>_. ''0.0'') (dict_store Map.empty (ascii ''1'') (7::nat))
              (PInst ''B'' (PBytes (ascii ''1'')))
            = dict_getitem (dict_store Map.empty (ascii ''1'') (7::nat)) (Bytes b)
         \<and> contains (\<lambda>_. ''0.0'') (dict_store Map.empty (ascii ''1'') (7::nat))
              (PInst ''B'' (PBytes (ascii ''1'')))
            = dict_contains (dict_store Map.empty (ascii ''1'') (7::nat)) (Bytes b))"
proof -
  let ?fs = "\<lambda>_::64 word. ''0.0''"
  let ?d = "dict_store Map.empty (ascii ''1'') (7::nat)"
  let ?k = "PInst ''B'' (PBytes (ascii ''1''))"
  have h1: "T_int \<in> set supported_types" by (simp add: supported_types_def)
  have h2: "strict_subclass (type_of (PBool True)) T_int" by (simp add: strict_subclass_def)
  have h3: "\<not> py_isinstance (PBool True) T_bytes" by (simp add: py_isinstance_def)
  have h4: "PBool True \<in> set [PInt 1, PBool True]" by simp
  have g1: "T_bytes \<in> set supported_types" by (simp add: supported_types_def)
  have g2: "strict_subclass (type_of ?k) T_bytes" by (simp add: strict_subclass_def)
  have g3: "py_isinstance ?k T_bytes" by (simp add: py_isinstance_def)
  note a = exact_type_dispatch [OF h1 h2, of ?fs "[PInt 1, PBool True]" ?d]
  note b = exact_type_dispatch [OF g1 g2, of ?fs "[]" ?d]
  from a h3 h4 have a': "converters ?fs (PBool True) = Inl (KeyError (Missing_type (type_of (PBool True))))
     \<and> (\<exists>b. encode_command ?fs [PInt 1, PBool True] = Inl (TypeError (Argument_expected b)))
     \<and> getitem ?fs ?d (PBool True) = Inl (KeyError (Missing_type (type_of (PBool True))))
     \<and> contains ?fs ?d (PBool True) = Inl (KeyError (Missing_type (type_of (PBool True))))"
    by blast
  from b g3 have b': "\<exists>b. as_bytes ?k = Some b \<and> getitem ?fs ?d ?k = dict_getitem ?d (Bytes b)
              \<and> contains ?fs ?d ?k = dict_contains ?d (Bytes b)"
    by blast
  from a' have a'': "converters ?fs (PBool True) = Inl (KeyError (Missing_type T_bool))
     \<and> (\<exists>b. encode_command ?fs [PInt 1, PBool True] = Inl (TypeError (Argument_expected b)))
     \<and> getitem ?fs ?d (PBool True) = Inl (KeyError (Missing_type T_bool))
     \<and> contains ?fs ?d (PBool True) = Inl (KeyError (Missing_type T_bool))"
    by simp
  from h1 h2 h3 h4 g1 g2 g3 a'' b' show ?thesis by blast
qed

text \<open>
  Claim C10 as first stated fails: with \<open>class B(bytes)\<close>, the key \<open>B(b'x')\<close> has a type
  that is a strict subclass of a supported type, and the lookup finds the value stored under
  \<open>b'x'\<close>.
\<close>

theorem exact_type_dispatch_counterexample:
  "strict_subclass (type_of (PInst ''B'' (PBytes (ascii ''x'')))) T_bytes
   \<and> getitem (\<lambda>_. ''0.0'') (dict_store Map.empty (ascii ''x'') (7::nat))
        (PInst ''B'' (PBytes (ascii ''x''))) = Inr 7
   \<and> contains (\<lambda>_. ''0.0'') (dict_store Map.empty (ascii ''x'') (7::nat))
        (PInst ''B'' (PBytes (ascii ''x''))) = Inr True"
  by (simp add: strict_subclass_def getitem_def contains_def dict_store_def)

lemma canonical_lookup:
  "canonical fs other = Some k \<Longrightarrow> type_of other \<noteq> T_bytearray \<Longrightarrow>
   (as_bytes other = Some k) \<or> (as_bytes other = None \<and> converters fs other = Inr (Bytes k))"
  by (cases other) (auto simp: utf8_encode_str_int split: sum.splits)

lemma canonical_getitem:
  assumes "canonical fs other = Some k" "type_of other \<noteq> T_bytearray"
  shows "getitem fs d other = (case d k of None \<Rightarrow> Inl (KeyError (Missing_key k)) | Some v \<Rightarrow> Inr v)
     \<and> contains fs d other = Inr (d k \<noteq> None)"
proof -
  from canonical_lookup [OF assms]
  have "(as_bytes other = Some k) \<or> (as_bytes other = None \<and> converters fs other = Inr (Bytes k))" .
  then show ?thesis
    by (auto simp: getitem_def contains_def)
qed

text \<open>
  Claim C4, as amended. After a value is stored under a binary key, a lookup or a membership
  test with a key of another supported kind whose canonical encoding is that binary key (the
  text \<open>"x"\<close> for \<open>b"x"\<close>, the integer \<open>42\<close> for \<open>b"42"\<close>) retrieves that value, because
  the key first goes through the Value Encoder: both act on the underlying mapping at the
  canonical binary key, so that a key which is not stored is a KeyError for the lookup and
  false for the membership test. With a key that is an instance of no supported type, both
  raise the KeyError of the \<open>_converters\<close> table, which names the key's type; it is not
  the TypeError of \<open>encode_command\<close>, which names the value.
\<close>

theorem coerced_keys_lookup:
  "(canonical fs other = Some k \<and> type_of other \<noteq> T_bytearray \<longrightarrow>
      getitem fs (dict_store d k v) other = Inr v
      \<and> contains fs (dict_store d k v) other = Inr True)
   \<and> (canonical fs other = Some k \<and> type_of other \<noteq> T_bytearray \<longrightarrow>
      getitem fs d other
        = (case d k of None \<Rightarrow> Inl (KeyError (Missing_key k)) | Some v \<Rightarrow> Inr v)
      \<and> contains fs d other = Inr (d k \<noteq> None))
   \<and> getitem fs (dict_store d (ascii ''x'') v) (PStr (str ''x'')) = Inr v
   \<and> contains fs (dict_store d (ascii ''x'') v) (PStr (str ''x'')) = Inr True
   \<and> getitem fs (dict_store d (ascii ''42'') v) (PInt 42) = Inr v
   \<and> contains fs (dict_store d (ascii ''42'') v) (PInt 42) = Inr True
   \<and> getitem fs (dict_store Map.empty (ascii ''x'') v) (PStr (str ''y''))
       = Inl (KeyError (Missing_key (ascii ''y'')))
   \<and> contains fs (dict_store Map.empty (ascii ''x'') v) (PStr (str ''y'')) = Inr False
   \<and> ((\<forall>t\<in>set supported_types. \<not> py_isinstance key t) \<longrightarrow>
      getitem fs d key = Inl (KeyError (Missing_type (type_of key)))
      \<and> contains fs d key = Inl (KeyError (Missing_type (type_of key))))"
proof -
  have 0: "canonical fs other = Some k \<and> type_of other \<noteq> T_bytearray \<longrightarrow>
      getitem fs d other
        = (case d k of None \<Rightarrow> Inl (KeyError (Missing_key k)) | Some v \<Rightarrow> Inr v)
      \<and> contains fs d other = Inr (d k \<noteq> None)"
    using canonical_getitem [of fs other k d] by blast
  have 1: "canonical fs other = Some k \<and> type_of other \<noteq> T_bytearray \<longrightarrow>
      getitem fs (dict_store d k v) other = Inr v
      \<and> contains fs (dict_store d k v) other = Inr True"
    using canonical_getitem [of fs other k "dict_store d k v"] by (simp add: dict_store_def)
  have 2: "getitem fs (dict_store d (ascii ''x'') v) (PStr (str ''x'')) = Inr v
   \<and> contains fs (dict_store d (ascii ''x'') v) (PStr (str ''x'')) = Inr True"
    by (simp add: getitem_def contains_def dict_store_def ascii_def str_def utf8_code_point_def)
  have 3: "getitem fs (dict_store d (ascii ''42'') v) (PInt 42) = Inr v
   \<and> contains fs (dict_store d (ascii ''42'') v) (PInt 42) = Inr True"
    by (simp add: getitem_def contains_def dict_store_def ascii_def str_int_def str_nat.simps
        utf8_code_point_def)
  have 5: "getitem fs (dict_store Map.empty (ascii ''x'') v) (PStr (str ''y''))
       = Inl (KeyError (Missing_key (ascii ''y'')))
   \<and> contains fs (dict_store Map.empty (ascii ''x'') v) (PStr (str ''y'')) = Inr False"
    by (simp add: getitem_def contains_def dict_store_def ascii_def str_def utf8_code_point_def)
  have 4: "(\<forall>t\<in>set supported_types. \<not> py_isinstance key t) \<longrightarrow>
      getitem fs d key = Inl (KeyError (Missing_type (type_of key)))
      \<and> contains fs d key = Inl (KeyError (Missing_type (type_of key)))"
  proof
    assume a: "\<forall>t\<in>set supported_types. \<not> py_isinstance key t"
    then have "\<not> py_isinstance key T_bytes" by (simp add: supported_types_def)
    moreover from a have "\<not> supported key"
      using type_in_mro [of "type_of key"] by (auto simp: supported_def py_isinstance_def)
    ultimately show "getitem fs d key = Inl (KeyError (Missing_type (type_of key)))
      \<and> contains fs d key = Inl (KeyError (Missing_type (type_of key)))"
      using getitem_unsupported by blast
  qed
  from 0 1 2 3 4 5 show ?thesis by blast
qed

text \<open>The theorem at the keys \<open>"x"\<close> and \<open>[]\<close>.\<close>

theorem coerced_keys_lookup_witness:
  "canonical (\<lambda>_. ''0.0'') (PStr (str ''x'')) = Some (ascii ''x'')
   \<and> type_of (PStr (str ''x'')) \<noteq> T_bytearray
   \<and> getitem (\<lambda>_. ''0.0'') (dict_store Map.empty (ascii ''x'') (7::nat)) (PStr (str ''x'')) = Inr 7
   \<and> contains (\<lambda>_. ''0.0'') (dict_store Map.empty (ascii ''x'') (7::nat)) (PStr (str ''x'')) = Inr True
   \<and> getitem (\<lambda>_. ''0.0'') (Map.empty :: nat coerced_keys_dict) (PStr (str ''x''))
       = Inl (KeyError (Missing_key (ascii ''x'')))
   \<and> contains (\<lambda>_. ''0.0'') (Map.empty :: nat coerced_keys_dict) (PStr (str ''x'')) = Inr False
   \<and> list_all (\<lambda>t. \<not> py_isinstance (PList []) t) supported_types
   \<and> getitem (\<lambda>_. ''0.0'') (dict_store Map.empty (ascii ''x'') (7::nat)) (PList [])
       = Inl (KeyError (Missing_type T_list))
   \<and> contains (\<lambda>_. ''0.0'') (dict_store Map.empty (ascii ''x'') (7::nat)) (PList [])
       = Inl (KeyError (Missing_type T_list))"
proof -
  let ?fs = "\<lambda>_::64 word. ''0.0''"
  let ?d = "dict_store Map.empty (ascii ''x'') (7::nat)"
  have h1: "canonical ?fs (PStr (str ''x'')) = Some (ascii ''x'')
      \<and> type_of (PStr (str ''x'')) \<noteq> T_bytearray"
    by (simp add: str_def ascii_def utf8_code_point_def)
  have h2: "\<forall>t\<in>set supported_types. \<not> py_isinstance (PList []) t"
    by (simp add: supported_types_def py_isinstance_def)
  note th = coerced_keys_lookup [where fs = ?fs and other = "PStr (str ''x'')"
      and k = "ascii ''x''" and d = "Map.empty :: nat coerced_keys_dict" and v = "7::nat"
      and key = "PList []"]
  note th2 = coerced_keys_lookup [where fs = ?fs and other = "PStr (str ''x'')"
      and k = "ascii ''x''" and d = ?d and v = "7::nat" and key = "PList []"]
  from th h1 have a: "getitem ?fs ?d (PStr (str ''x'')) = Inr 7
      \<and> contains ?fs ?d (PStr (str ''x'')) = Inr True"
    by blast
  from th h1 have m: "getitem ?fs (Map.empty :: nat coerced_keys_dict) (PStr (str ''x''))
       = (case (Map.empty :: nat coerced_keys_dict) (ascii ''x'') of
            None \<Rightarrow> Inl (KeyError (Missing_key (ascii ''x''))) | Some v \<Rightarrow> Inr v)
      \<and> contains ?fs (Map.empty :: nat coerced_keys_dict) (PStr (str ''x''))
          = Inr ((Map.empty :: nat coerced_keys_dict) (ascii ''x'') \<noteq> None)"
    by blast
  then have m': "getitem ?fs (Map.empty :: nat coerced_keys_dict) (PStr (str ''x''))
       = Inl (KeyError (Missing_key (ascii ''x'')))
      \<and> contains ?fs (Map.empty :: nat coerced_keys_dict) (PStr (str ''x'')) = Inr False"
    by simp
  from th2 h2 have b: "getitem ?fs ?d (PList []) = Inl (KeyError (Missing_type (type_of (PList []))))
      \<and> contains ?fs ?d (PList []) = Inl (KeyError (Missing_type (type_of (PList []))))"
    by blast
  then have b': "getitem ?fs ?d (PList []) = Inl (KeyError (Missing_type T_list))
      \<and> contains ?fs ?d (PList []) = Inl (KeyError (Missing_type T_list))"
    by simp
  from h2 have h2': "list_all (\<lambda>t. \<not> py_isinstance (PList []) t) supported_types"
    by (simp only: list_all_iff)
  from h1 h2' a m' b' show ?thesis by blast
qed

text \<open>
  Claim C4 as first stated fails: with the key \<open>[]\<close>, of an unsupported kind, the lookup
  and the membership test raise \<open>KeyError(list)\<close>, where \<open>encode_command\<close> raises the
  TypeError that names \<open>[]\<close>.
\<close>

theorem coerced_keys_lookup_counterexample:
  "list_all (\<lambda>t. \<not> py_isinstance (PList []) t) supported_types
   \<and> encode_command (\<lambda>_. ''0.0'') [PList []] = Inl (TypeError (Argument_expected (PList [])))
   \<and> getitem (\<lambda>_. ''0.0'') (dict_store Map.empty (ascii ''x'') (7::nat)) (PList [])
       = Inl (KeyError (Missing_type T_list))
   \<and> getitem (\<lambda>_. ''0.0'') (dict_store Map.empty (ascii ''x'') (7::nat)) (PList [])
       \<noteq> Inl (TypeError (Argument_expected (PList [])))
   \<and> contains (\<lambda>_. ''0.0'') (dict_store Map.empty (ascii ''x'') (7::nat)) (PList [])
       = Inl (KeyError (Missing_type T_list))
   \<and> contains (\<lambda>_. ''0.0'') (dict_store Map.empty (ascii ''x'') (7::nat)) (PList [])
       \<noteq> Inl (TypeError (Argument_expected (PList [])))"
  by (simp add: supported_types_def py_isinstance_def getitem_def contains_def
      encode_command_def bytes_len_def str_nat.simps utf8_code_point_def)

section \<open>The OK adapter\<close>

text \<open>
  Claim C5. For every settled value of the inner result, \<open>wait_ok\<close> returns the value
  unchanged when it equals the token QUEUED in its binary or its text form, and otherwise
  the boolean that is true exactly when the value equals OK in its binary or its text form:
  QUEUED gives QUEUED, OK gives true, PONG gives false.
\<close>

theorem wait_ok_result:
  "wait_ok (Inr res) =
     Inr (if res = RBytes (ascii ''QUEUED'') \<or> res = RStr (str ''QUEUED'') then Unchanged res
          else Converted (res = RBytes (ascii ''OK'') \<or> res = RStr (str ''OK'')))
   \<and> wait_ok (Inr (RBytes (ascii ''QUEUED''))) = Inr (Unchanged (RBytes (ascii ''QUEUED'')))
   \<and> wait_ok (Inr (RStr (str ''QUEUED''))) = Inr (Unchanged (RStr (str ''QUEUED'')))
   \<and> wait_ok (Inr (RBytes (ascii ''OK''))) = Inr (Converted True)
   \<and> wait_ok (Inr (RStr (str ''OK''))) = Inr (Converted True)
   \<and> wait_ok (Inr (RBytes (ascii ''PONG''))) = Inr (Converted False)
   \<and> wait_ok (Inr (RStr (str ''PONG''))) = Inr (Converted False)"
  by (simp add: wait_ok_def is_queued_def ascii_def str_def)

section \<open>The settlement helpers\<close>

text \<open>
  Claim C7. For every future and every value or exception, \<open>_set_result\<close> and
  \<open>_set_exception\<close> assign the value or the exception when the future is pending, leave a
  cancelled future as it is without raising, and raise AssertionError, leaving the future as
  it is, when it was already settled and not cancelled.
\<close>

theorem settle_once:
  "set_result (Pending, log) r = (Inr (), Result r, log)
   \<and> set_exception (Pending, log) e = (Inr (), Exception e, log)
   \<and> set_result (Cancelled, log) r = (Inr (), Cancelled, log @ [Cancelled])
   \<and> set_exception (Cancelled, log) e = (Inr (), Cancelled, log @ [Cancelled])
   \<and> (fut \<noteq> Pending \<and> fut \<noteq> Cancelled \<longrightarrow>
        set_result (fut, log) r = (Inl AssertionError, fut, log @ [fut])
        \<and> set_exception (fut, log) e = (Inl AssertionError, fut, log @ [fut]))"
  by (simp add: set_result_def set_exception_def future_done_def future_cancelled_def)

text \<open>The theorem at a future that holds the result 1.\<close>

theorem settle_once_witness:
  "(Result (1::nat) :: (nat, string) future) \<noteq> Pending
   \<and> (Result (1::nat) :: (nat, string) future) \<noteq> Cancelled
   \<and> set_result (Result (1::nat) :: (nat, string) future, []) 2
       = (Inl AssertionError, Result 1, [Result 1])
   \<and> set_exception (Result (1::nat) :: (nat, string) future, []) ''timeout''
       = (Inl AssertionError, Result 1, [Result 1])
   \<and> set_result (Cancelled :: (nat, string) future, []) 2 = (Inr (), Cancelled, [Cancelled])
   \<and> set_result (Pending :: (nat, string) future, []) 2 = (Inr (), Result 2, [])"
  using settle_once [of "[]" "2::nat" "''timeout''" "Result (1::nat)"]
  by simp

section \<open>Regrouping a flat reply into pairs\<close>

lemma zip_slices: "zip (slice_even xs) (slice_odd xs) = pairs xs"
  by (induction xs rule: pairs.induct) simp_all

lemma length_pairs: "length (pairs xs) = length xs div 2"
  by (induction xs rule: pairs.induct) simp_all

lemma pairs_flatten:
  "concat (map (\<lambda>(k, v). [k, v]) (pairs xs)) = take (2 * (length xs div 2)) xs"
  by (induction xs rule: pairs.induct) simp_all

lemma map_of_dict_setitem: "map_of (dict_setitem d k v) = (map_of d)(k \<mapsto> v)"
  by (induction d) auto

lemma keys_dict_setitem: "fst ` set (dict_setitem d k v) = insert k (fst ` set d)"
proof (induction d)
  case Nil
  show ?case by simp
next
  case (Cons kv d)
  obtain k' v' where "kv = (k', v')" by (cases kv)
  with Cons show ?case by (cases "k' = k") auto
qed

lemma distinct_dict_setitem:
  "distinct (map fst d) \<Longrightarrow> distinct (map fst (dict_setitem d k v))"
proof (induction d)
  case Nil
  then show ?case by simp
next
  case (Cons kv d)
  obtain k' v' where kv: "kv = (k', v')" by (cases kv)
  with Cons show ?case
    using keys_dict_setitem [of d k v] by auto
qed

lemma dict_update_ok:
  "list_all hashable (map fst kvs) \<Longrightarrow> distinct (map fst d) \<Longrightarrow>
   \<exists>d'. dict_update d kvs = Inr d' \<and> map_of d' = map_of d ++ map_of (rev kvs)
      \<and> distinct (map fst d')"
proof (induction kvs arbitrary: d)
  case Nil
  then show ?case by simp
next
  case (Cons kv kvs)
  obtain k v where kv: "kv = (k, v)" by (cases kv)
  from Cons.prems kv have h: "hashable k" "list_all hashable (map fst kvs)" by simp_all
  from Cons.prems have "distinct (map fst (dict_setitem d k v))"
    by (simp add: distinct_dict_setitem)
  from Cons.IH [OF h(2) this]
  obtain d' where d': "dict_update (dict_setitem d k v) kvs = Inr d'"
    "map_of d' = map_of (dict_setitem d k v) ++ map_of (rev kvs)" "distinct (map fst d')"
    by blast
  have "map_of (dict_setitem d k v) ++ map_of (rev kvs)
      = map_of d ++ map_of (rev (kv # kvs))"
    by (simp add: map_of_dict_setitem kv)
  with d' h kv show ?case by simp
qed

lemma wait_make_dict_list:
  "list_all hashable (map fst (pairs xs)) \<Longrightarrow>
   \<exists>d. wait_make_dict (Inr (RList xs)) = Inr (Converted d)
      \<and> map_of d = map_of (rev (pairs xs)) \<and> distinct (map fst d)"
proof -
  assume "list_all hashable (map fst (pairs xs))"
  from dict_update_ok [OF this, of "[]"]
  obtain d where "dict_update [] (pairs xs) = Inr d" "map_of d = map_of (rev (pairs xs))"
    "distinct (map fst d)"
    by auto
  then show ?thesis
    by (simp add: wait_make_dict_def is_queued_def py_dict_def)
qed

lemma fetch_stop:
  "\<not> (ret self = [] \<and> truthy (cur self)) \<Longrightarrow> fetch buffer scan self w = Some (None, self, w)"
  by (subst fetch.simps) auto

lemma fetch_error:
  "ret self = [] \<Longrightarrow> truthy (cur self) \<Longrightarrow> scan w (cur self) = (Inl e, w') \<Longrightarrow>
   fetch buffer scan self w = Some (Some e, self, w')"
  by (subst fetch.simps) simp

lemma fetch_step:
  "ret self = [] \<Longrightarrow> truthy (cur self) \<Longrightarrow> scan w (cur self) = (Inr (c, page), w') \<Longrightarrow>
   fetch buffer scan self w = fetch buffer scan (self\<lparr>cur := c, ret := buffer page\<rparr>) w'"
  by (subst fetch.simps) simp

lemma pairs_anext_page:
  "ret self = [] \<Longrightarrow> truthy (cur self) \<Longrightarrow> scan w (cur self) = (Inr (c, k # v # page), w') \<Longrightarrow>
   ScanIterPairs_anext scan self w = Some (Inr (k, v), \<lparr>cur = c, ret = pairs page\<rparr>, w')"
  by (simp add: ScanIterPairs_anext_def anext_def fetch_step fetch_stop zip_slices)

text \<open>
  Claim C3, as amended. \<open>wait_make_dict\<close> and \<open>_ScanIterPairs\<close> regroup a flat sequence
  into the pairs of its consecutive elements, in order: element 0 with 1, element 2 with 3
  and so on, the same pairs for both; with hashable keys \<open>wait_make_dict\<close> returns the
  mapping of these pairs (a later pair wins over an earlier one with the same key), so
  \<open>[a, 1, b, 2]\<close> becomes \<open>{a: 1, b: 2}\<close>, and the pair iterator yields the pairs of a page
  one at a time. A sequence of odd length is no error: the pairs are those of the sequence
  without its last element.
\<close>

theorem pair_regrouping:
  "zip (slice_even xs) (slice_odd xs) = pairs xs
   \<and> length (pairs xs) = length xs div 2
   \<and> concat (map (\<lambda>(k, v). [k, v]) (pairs xs)) = take (2 * (length xs div 2)) xs
   \<and> (list_all hashable (map fst (pairs xs)) \<longrightarrow>
        (\<exists>d. wait_make_dict (Inr (RList xs)) = Inr (Converted d)
            \<and> map_of d = map_of (rev (pairs xs)) \<and> distinct (map fst d)))
   \<and> wait_make_dict (Inr (RList [RBytes (ascii ''a''), RInt 1, RBytes (ascii ''b''), RInt 2]))
       = Inr (Converted [(RBytes (ascii ''a''), RInt 1), (RBytes (ascii ''b''), RInt 2)])
   \<and> (ret self = [] \<and> truthy (cur self) \<and> scan w (cur self) = (Inr (c, k # v # page), w') \<longrightarrow>
        ScanIterPairs_anext scan self w = Some (Inr (k, v), \<lparr>cur = c, ret = pairs page\<rparr>, w'))"
proof -
  have 5: "wait_make_dict (Inr (RList [RBytes (ascii ''a''), RInt 1, RBytes (ascii ''b''), RInt 2]))
       = Inr (Converted [(RBytes (ascii ''a''), RInt 1), (RBytes (ascii ''b''), RInt 2)])"
    by (simp add: wait_make_dict_def is_queued_def py_dict_def ascii_def)
  show ?thesis
    using zip_slices [of xs] length_pairs [of xs] pairs_flatten [of xs]
      wait_make_dict_list [of xs] 5 pairs_anext_page [of self scan w c k v page w']
    by blast
qed

text \<open>The theorem at the sequence \<open>[a, 1, b]\<close>.\<close>

theorem pair_regrouping_witness:
  "list_all hashable (map fst (pairs [RBytes (ascii ''a''), RInt 1, RBytes (ascii ''b'')]))
   \<and> (\<exists>d. wait_make_dict (Inr (RList [RBytes (ascii ''a''), RInt 1, RBytes (ascii ''b'')]))
            = Inr (Converted d)
         \<and> map_of d = map_of (rev (pairs [RBytes (ascii ''a''), RInt 1, RBytes (ascii ''b'')]))
         \<and> distinct (map fst d))
   \<and> ScanIterPairs_anext scripted scan_iter_init
        [(RInt 0, [RBytes (ascii ''a''), RInt 1, RBytes (ascii ''b'')])]
      = Some (Inr (RBytes (ascii ''a''), RInt 1), \<lparr>cur = RInt 0, ret = pairs [RBytes (ascii ''b'')]\<rparr>, [])"
proof -
  let ?xs = "[RBytes (ascii ''a''), RInt 1, RBytes (ascii ''b'')]"
  have h: "list_all hashable (map fst (pairs ?xs))" by simp
  have g: "ret (scan_iter_init :: (reply \<times> reply) scan_iter) = []
      \<and> truthy (cur (scan_iter_init :: (reply \<times> reply) scan_iter))
      \<and> scripted [(RInt 0, ?xs)] (cur (scan_iter_init :: (reply \<times> reply) scan_iter))
          = (Inr (RInt 0, RBytes (ascii ''a'') # RInt 1 # [RBytes (ascii ''b'')]), [])"
    by (simp add: scan_iter_init_def scripted_def ascii_def)
  note th = pair_regrouping [where xs = ?xs and self = scan_iter_init and scan = scripted
      and w = "[(RInt 0, ?xs)]" and c = "RInt 0" and k = "RBytes (ascii ''a'')" and v = "RInt 1"
      and page = "[RBytes (ascii ''b'')]" and w' = "[]"]
  from th h g show ?thesis by blast
qed

text \<open>
  Claim C3 as first stated fails: on \<open>[a, 1, b]\<close>, of odd length, \<open>wait_make_dict\<close>
  returns \<open>{a: 1}\<close> and the pair iterator yields \<open>(a, 1)\<close>; neither raises.
\<close>

theorem pair_regrouping_counterexample:
  "odd (length [RBytes (ascii ''a''), RInt 1, RBytes (ascii ''b'')])
   \<and> wait_make_dict (Inr (RList [RBytes (ascii ''a''), RInt 1, RBytes (ascii ''b'')]))
       = Inr (Converted [(RBytes (ascii ''a''), RInt 1)])
   \<and> ScanIterPairs_anext scripted scan_iter_init
        [(RInt 0, [RBytes (ascii ''a''), RInt 1, RBytes (ascii ''b'')])]
      = Some (Inr (RBytes (ascii ''a''), RInt 1), \<lparr>cur = RInt 0, ret = []\<rparr>, [])"
proof -
  have "ScanIterPairs_anext scripted scan_iter_init
        [(RInt 0, [RBytes (ascii ''a''), RInt 1, RBytes (ascii ''b'')])]
      = Some (Inr (RBytes (ascii ''a''), RInt 1), \<lparr>cur = RInt 0, ret = pairs [RBytes (ascii ''b'')]\<rparr>, [])"
    by (rule pairs_anext_page) (simp_all add: scan_iter_init_def scripted_def ascii_def)
  then show ?thesis
    by (simp add: wait_make_dict_def is_queued_def py_dict_def ascii_def)
qed

section \<open>The Response Decoder\<close>













section \<open>The cache of the length formatting\<close>

lemma lru_cache_length:
  assumes "length cache \<le> m" and "0 < m"
  shows "length (snd (lru_cache m f cache k)) \<le> m"
proof (cases "map_of cache k")
  case None
  with assms show ?thesis
    by (cases "f k") (auto simp: lru_cache_def)
next
  case (Some v)
  then have "(k, v) \<in> set cache" by (rule map_of_SomeD)
  then have "length (filter (\<lambda>e. fst e \<noteq> k) cache) < length cache"
    by (intro length_filter_less [of "(k, v)"]) simp_all
  with Some assms show ?thesis by (simp add: lru_cache_def)
qed

lemma bytes_len_cached_length:
  "length cache \<le> 1024 \<Longrightarrow> length (snd (bytes_len_cached cache n)) \<le> 1024"
  unfolding bytes_len_cached_def by (rule lru_cache_length) simp_all

lemma encode_parts_cached_length:
  "length cache \<le> 1024 \<Longrightarrow> length (snd (encode_parts_cached fs cache parts args)) \<le> 1024"
proof (induction args arbitrary: cache parts)
  case Nil
  then show ?case by simp
next
  case (Cons a args)
  show ?case
  proof (cases "converters fs a")
    case (Inl e)
    with Cons.prems show ?thesis by simp
  next
    case (Inr barg)
    obtain r cache' where c: "bytes_len_cached cache (length (data barg)) = (r, cache')"
      by (cases "bytes_len_cached cache (length (data barg))")
    with bytes_len_cached_length [OF Cons.prems, of "length (data barg)"]
    have l: "length cache' \<le> 1024" by simp
    show ?thesis
      using Inr c l Cons.IH [OF l] by (cases r) simp_all
  qed
qed

lemma encode_command_cached_length:
  "length cache \<le> 1024 \<Longrightarrow> length (snd (encode_command_cached fs cache args)) \<le> 1024"
proof -
  assume a: "length cache \<le> 1024"
  obtain r cache' where c: "bytes_len_cached cache (length args) = (r, cache')"
    by (cases "bytes_len_cached cache (length args)")
  with bytes_len_cached_length [OF a, of "length args"]
  have l: "length cache' \<le> 1024" by simp
  show ?thesis
  proof (cases r)
    case (Inl e)
    with c l show ?thesis by (simp add: encode_command_cached_def)
  next
    case (Inr n)
    obtain r2 cache2 where p: "encode_parts_cached fs cache' [[0x2A], n, crlf] args = (r2, cache2)"
      by (cases "encode_parts_cached fs cache' [[0x2A], n, crlf] args")
    with encode_parts_cached_length [OF l, of fs "[[0x2A], n, crlf]" args]
    have "length cache2 \<le> 1024" by simp
    with Inr c p show ?thesis
      by (cases r2) (simp_all add: encode_command_cached_def)
  qed
qed

lemma cache_after_length:
  "length cache \<le> 1024 \<Longrightarrow> length (cache_after fs cache calls) \<le> 1024"
  by (induction calls arbitrary: cache) (simp_all add: encode_command_cached_length)

lemma bytes_len_cached_consistent:
  assumes "\<forall>e\<in>set cache. snd e = decimal (fst e)"
  shows "fst (bytes_len_cached cache n) = Inr (decimal n)
     \<and> (\<forall>e\<in>set (snd (bytes_len_cached cache n)). snd e = decimal (fst e))"
proof (cases "map_of cache n")
  case None
  with assms show ?thesis
    by (auto simp: bytes_len_cached_def lru_cache_def bytes_len_decimal dest: in_set_butlastD)
next
  case (Some v)
  then have "(n, v) \<in> set cache" by (rule map_of_SomeD)
  with assms have "v = decimal n" by auto
  with Some assms show ?thesis
    by (auto simp: bytes_len_cached_def lru_cache_def)
qed

lemma encode_parts_cached_consistent:
  "\<forall>e\<in>set cache. snd e = decimal (fst e) \<Longrightarrow>
   fst (encode_parts_cached fs cache parts args) = encode_parts fs parts args
   \<and> (\<forall>e\<in>set (snd (encode_parts_cached fs cache parts args)). snd e = decimal (fst e))"
proof (induction args arbitrary: cache parts)
  case Nil
  then show ?case by simp
next
  case (Cons a args)
  show ?case
  proof (cases "converters fs a")
    case (Inl e)
    with Cons.prems show ?thesis by simp
  next
    case (Inr barg)
    obtain r cache' where c: "bytes_len_cached cache (length (data barg)) = (r, cache')"
      by (cases "bytes_len_cached cache (length (data barg))")
    with bytes_len_cached_consistent [OF Cons.prems, of "length (data barg)"]
    have r: "r = Inr (decimal (length (data barg)))"
      and l: "\<forall>e\<in>set cache'. snd e = decimal (fst e)" by simp_all
    show ?thesis
      using Inr c r Cons.IH [OF l] by (simp add: bytes_len_decimal)
  qed
qed

lemma encode_command_cached_consistent:
  assumes "\<forall>e\<in>set cache. snd e = decimal (fst e)"
  shows "fst (encode_command_cached fs cache args) = encode_command fs args
   \<and> (\<forall>e\<in>set (snd (encode_command_cached fs cache args)). snd e = decimal (fst e))"
proof -
  obtain r cache' where c: "bytes_len_cached cache (length args) = (r, cache')"
    by (cases "bytes_len_cached cache (length args)")
  with bytes_len_cached_consistent [OF assms, of "length args"]
  have r: "r = Inr (decimal (length args))"
    and l: "\<forall>e\<in>set cache'. snd e = decimal (fst e)" by simp_all
  obtain r2 cache2 where
    p: "encode_parts_cached fs cache' [[0x2A], decimal (length args), crlf] args = (r2, cache2)"
    by (cases "encode_parts_cached fs cache' [[0x2A], decimal (length args), crlf] args")
  with encode_parts_cached_consistent [OF l, of fs "[[0x2A], decimal (length args), crlf]" args]
  have r2: "r2 = encode_parts fs [[0x2A], decimal (length args), crlf] args"
    and l2: "\<forall>e\<in>set cache2. snd e = decimal (fst e)" by simp_all
  show ?thesis
    using c r p r2 l2
    by (simp add: encode_command_cached_def encode_command_def bytes_len_decimal
        split: sum.splits)
qed

lemma cache_after_consistent:
  "\<forall>e\<in>set cache. snd e = decimal (fst e) \<Longrightarrow>
   \<forall>e\<in>set (cache_after fs cache calls). snd e = decimal (fst e)"
proof (induction calls arbitrary: cache)
  case Nil
  then show ?case by simp
next
  case (Cons args calls)
  from encode_command_cached_consistent [OF Cons.prems, of fs args]
  have "\<forall>e\<in>set (snd (encode_command_cached fs cache args)). snd e = decimal (fst e)"
    by blast
  from Cons.IH [OF this] show ?case by simp
qed

lemma bytes_len_cached_front:
  "snd (bytes_len_cached cache k) \<noteq> [] \<and> fst (hd (snd (bytes_len_cached cache k))) = k"
  by (cases "map_of cache k")
    (simp_all add: bytes_len_cached_def lru_cache_def bytes_len_decimal)

lemma bytes_len_cached_evicts:
  "length cache = 1024 \<Longrightarrow> map_of cache k = None \<Longrightarrow>
   snd (bytes_len_cached cache k) = (k, decimal k) # butlast cache"
  by (simp add: bytes_len_cached_def lru_cache_def bytes_len_decimal)

text \<open>
  Claim C9. After any sequence of calls of \<open>encode_command\<close>, whatever their arguments,
  the cache of \<open>_bytes_len\<close> holds at most 1024 entries, and the cached function answers
  as the uncached one; the key just used is the most recent entry, and a new key that
  arrives at a full cache takes the place of the least recently used entry.
\<close>

theorem cache_bounded:
  "length (cache_after fs [] calls) \<le> 1024
   \<and> fst (encode_command_cached fs (cache_after fs [] calls) args) = encode_command fs args
   \<and> snd (bytes_len_cached cache k) \<noteq> [] \<and> fst (hd (snd (bytes_len_cached cache k))) = k
   \<and> (length cache = 1024 \<and> map_of cache k = None \<longrightarrow>
        snd (bytes_len_cached cache k) = (k, decimal k) # butlast cache)"
proof -
  have "\<forall>e\<in>set (cache_after fs [] calls). snd e = decimal (fst e)"
    by (rule cache_after_consistent) simp
  from encode_command_cached_consistent [OF this, of fs args]
  have "fst (encode_command_cached fs (cache_after fs [] calls) args) = encode_command fs args"
    by blast
  moreover have "length (cache_after fs [] calls) \<le> 1024"
    by (rule cache_after_length) simp
  ultimately show ?thesis
    using bytes_len_cached_front [of cache k] bytes_len_cached_evicts [of cache k] by blast
qed

text \<open>The theorem at a full cache, the entries for 0 to 1023, and the new key 5000.\<close>

theorem cache_bounded_witness:
  "length (map (\<lambda>n. (n, decimal n)) [0..<1024]) = 1024
   \<and> map_of (map (\<lambda>n. (n, decimal n)) [0..<1024]) 5000 = None
   \<and> snd (bytes_len_cached (map (\<lambda>n. (n, decimal n)) [0..<1024]) 5000)
       = (5000, decimal 5000) # butlast (map (\<lambda>n. (n, decimal n)) [0..<1024])
   \<and> length (snd (bytes_len_cached (map (\<lambda>n. (n, decimal n)) [0..<1024]) 5000)) = 1024"
proof -
  let ?c = "map (\<lambda>n. (n, decimal n)) [0..<1024]"
  have h1: "length ?c = 1024" by simp
  have h2: "map_of ?c 5000 = None"
    by (simp add: map_of_eq_None_iff image_iff)
  from cache_bounded [where cache = ?c and k = 5000, of "\<lambda>_. ''0.0''" "[]" "[]"] h1 h2
  have e: "snd (bytes_len_cached ?c 5000) = (5000, decimal 5000) # butlast ?c" by blast
  have "length ((5000, decimal 5000) # butlast ?c) = 1024" by simp
  with h1 h2 e show ?thesis by simp
qed

section \<open>The Cursor Iterator\<close>

lemma anext_buffered:
  "ret self = x # xs \<Longrightarrow> anext buffer scan self w = Some (Inr x, self\<lparr>ret := xs\<rparr>, w)"
  by (simp add: anext_def fetch_stop)

lemma anext_stop:
  "ret self = [] \<Longrightarrow> \<not> truthy (cur self) \<Longrightarrow>
   anext buffer scan self w = Some (Inl StopAsyncIteration, self, w)"
  by (simp add: anext_def fetch_stop)

lemma anext_fetch:
  "ret self = [] \<Longrightarrow> truthy (cur self) \<Longrightarrow> scan w (cur self) = (Inr (c, page), w') \<Longrightarrow>
   anext buffer scan self w = anext buffer scan (self\<lparr>cur := c, ret := buffer page\<rparr>) w'"
  by (simp add: anext_def fetch_step)

lemma anext_error:
  "ret self = [] \<Longrightarrow> truthy (cur self) \<Longrightarrow> scan w (cur self) = (Inl e, w') \<Longrightarrow>
   anext buffer scan self w = Some (Inl e, self, w')"
  by (simp add: anext_def fetch_error)

lemma fetch_exit:
  assumes "fetch buffer scan self w = Some y"
  shows "\<forall>self1 w1. y = (None, self1, w1) \<longrightarrow> ret self1 \<noteq> [] \<or> \<not> truthy (cur self1)"
  by (rule fetch.raw_induct
      [where P = "\<lambda>buffer scan self w y.
          \<forall>self1 w1. y = (None, self1, w1) \<longrightarrow> ret self1 \<noteq> [] \<or> \<not> truthy (cur self1)",
        OF _ assms])
    (auto split: if_splits sum.splits prod.splits)

lemma anext_after_fetch:
  assumes "fetch buffer scan self w = Some (None, self1, w1)"
  shows "(ret self1 = [] \<and> \<not> truthy (cur self1)
            \<and> anext buffer scan self w = Some (Inl StopAsyncIteration, self1, w1))
         \<or> (\<exists>x xs. ret self1 = x # xs
            \<and> anext buffer scan self w = Some (Inr x, self1\<lparr>ret := xs\<rparr>, w1))"
proof (cases "ret self1")
  case Nil
  with fetch_exit [OF assms] have "\<not> truthy (cur self1)" by simp
  with Nil assms show ?thesis by (simp add: anext_def)
next
  case (Cons x xs)
  with assms show ?thesis by (simp add: anext_def)
qed

lemma async_for_buffered:
  "ret self = x # xs \<Longrightarrow>
   async_for buffer scan self w acc = async_for buffer scan (self\<lparr>ret := xs\<rparr>) w (acc @ [x])"
  by (subst async_for.simps) (simp add: anext_buffered)

lemma async_for_stop:
  "ret self = [] \<Longrightarrow> \<not> truthy (cur self) \<Longrightarrow>
   async_for buffer scan self w acc = Some (acc, StopAsyncIteration)"
  by (subst async_for.simps) (simp add: anext_stop)

lemma async_for_error:
  "ret self = [] \<Longrightarrow> truthy (cur self) \<Longrightarrow> scan w (cur self) = (Inl e, w') \<Longrightarrow>
   async_for buffer scan self w acc = Some (acc, e)"
  by (subst async_for.simps) (simp add: anext_error)

lemma async_for_fetch:
  assumes "ret self = []" "truthy (cur self)" "scan w (cur self) = (Inr (c, page), w')"
  shows "async_for buffer scan self w acc
       = async_for buffer scan (self\<lparr>cur := c, ret := buffer page\<rparr>) w' acc"
proof -
  have "async_for buffer scan self w acc =
      (case anext buffer scan self w of
         None \<Rightarrow> None
       | Some (Inl e, self', w') \<Rightarrow> Some (acc, e)
       | Some (Inr x, self', w') \<Rightarrow> async_for buffer scan self' w' (acc @ [x]))"
    by (rule async_for.simps)
  also have "\<dots> =
      (case anext buffer scan (self\<lparr>cur := c, ret := buffer page\<rparr>) w' of
         None \<Rightarrow> None
       | Some (Inl e, self', w') \<Rightarrow> Some (acc, e)
       | Some (Inr x, self', w') \<Rightarrow> async_for buffer scan self' w' (acc @ [x]))"
    by (simp only: anext_fetch [where buffer = buffer and scan = scan and self = self and w = w, OF assms])
  also have "\<dots> = async_for buffer scan (self\<lparr>cur := c, ret := buffer page\<rparr>) w' acc"
    by (rule async_for.simps [symmetric])
  finally show ?thesis .
qed

lemma async_for_drain:
  "ret self = xs \<Longrightarrow>
   async_for buffer scan self w acc = async_for buffer scan (self\<lparr>ret := []\<rparr>) w (acc @ xs)"
proof (induction xs arbitrary: self acc)
  case Nil
  then have "self\<lparr>ret := []\<rparr> = self" by simp
  then show ?case by simp
next
  case (Cons x xs)
  have "async_for buffer scan self w acc
      = async_for buffer scan (self\<lparr>ret := xs\<rparr>) w (acc @ [x])"
    using Cons.prems by (rule async_for_buffered)
  also have "\<dots> = async_for buffer scan (self\<lparr>ret := xs\<rparr>\<lparr>ret := []\<rparr>) w ((acc @ [x]) @ xs)"
    by (rule Cons.IH) simp
  finally show ?case by simp
qed

lemma async_for_page:
  assumes "ret self = []" "truthy (cur self)" "scan w (cur self) = (Inr (c, page), w')"
  shows "async_for buffer scan self w acc
       = async_for buffer scan (self\<lparr>cur := c, ret := []\<rparr>) w' (acc @ buffer page)"
proof -
  have "async_for buffer scan self w acc
       = async_for buffer scan (self\<lparr>cur := c, ret := buffer page\<rparr>) w' acc"
    using assms by (rule async_for_fetch)
  also have "\<dots> = async_for buffer scan (self\<lparr>cur := c, ret := buffer page\<rparr>\<lparr>ret := []\<rparr>) w'
      (acc @ buffer page)"
    by (rule async_for_drain) simp
  finally show ?thesis by simp
qed

lemma async_for_scripted:
  "\<forall>cp\<in>set ps. truthy (fst cp) \<Longrightarrow> \<not> truthy c0 \<Longrightarrow> ret self = [] \<Longrightarrow> truthy (cur self) \<Longrightarrow>
   async_for buffer scripted self (ps @ (c0, p0) # rest) acc
     = Some (acc @ concat (map (\<lambda>cp. buffer (snd cp)) ps) @ buffer p0, StopAsyncIteration)"
proof (induction ps arbitrary: self acc)
  case Nil
  have "async_for buffer scripted self ([] @ (c0, p0) # rest) acc
      = async_for buffer scripted (self\<lparr>cur := c0, ret := []\<rparr>) rest (acc @ buffer p0)"
    using Nil.prems by (intro async_for_page) (simp_all add: scripted_def)
  also have "\<dots> = Some (acc @ buffer p0, StopAsyncIteration)"
    using Nil.prems by (intro async_for_stop) simp_all
  finally show ?case by simp
next
  case (Cons cp ps)
  obtain c p where cp: "cp = (c, p)" by (cases cp)
  with Cons.prems have t: "truthy c" "\<forall>cp\<in>set ps. truthy (fst cp)" by simp_all
  have "async_for buffer scripted self ((cp # ps) @ (c0, p0) # rest) acc
      = async_for buffer scripted (self\<lparr>cur := c, ret := []\<rparr>) (ps @ (c0, p0) # rest)
          (acc @ buffer p)"
    using Cons.prems cp by (intro async_for_page) (simp_all add: scripted_def)
  also have "\<dots> = Some ((acc @ buffer p) @ concat (map (\<lambda>cp. buffer (snd cp)) ps) @ buffer p0,
      StopAsyncIteration)"
    using t Cons.prems(2) by (intro Cons.IH) simp_all
  finally show ?case by (simp add: cp)
qed

lemma async_for_scripted_exhausted:
  "\<forall>cp\<in>set ps. truthy (fst cp) \<Longrightarrow> ret self = [] \<Longrightarrow> truthy (cur self) \<Longrightarrow>
   async_for buffer scripted self ps acc
     = Some (acc @ concat (map (\<lambda>cp. buffer (snd cp)) ps), Raised ''no more pages'')"
proof (induction ps arbitrary: self acc)
  case Nil
  then show ?case
    by (simp add: async_for_error [where e = "Raised ''no more pages''" and w' = "[]"]
        scripted_def)
next
  case (Cons cp ps)
  obtain c p where cp: "cp = (c, p)" by (cases cp)
  with Cons.prems have t: "truthy c" "\<forall>cp\<in>set ps. truthy (fst cp)" by simp_all
  have "async_for buffer scripted self (cp # ps) acc
      = async_for buffer scripted (self\<lparr>cur := c, ret := []\<rparr>) ps (acc @ buffer p)"
    using Cons.prems cp by (intro async_for_page) (simp_all add: scripted_def)
  also have "\<dots> = Some ((acc @ buffer p) @ concat (map (\<lambda>cp. buffer (snd cp)) ps),
      Raised ''no more pages'')"
    using t by (intro Cons.IH) simp_all
  finally show ?case by (simp add: cp)
qed

lemma fetch_never:
  assumes "fetch buffer scan self w = Some y"
  shows "scan = answering (c, []) \<and> truthy c \<and> buffer [] = [] \<and> ret self = [] \<and> truthy (cur self)
      \<longrightarrow> False"
proof (rule fetch.raw_induct
      [where P = "\<lambda>buffer scan self w y.
          scan = answering (c, []) \<and> truthy c \<and> buffer [] = [] \<and> ret self = []
            \<and> truthy (cur self) \<longrightarrow> False",
        OF _ assms])
  fix f :: "(reply list \<Rightarrow> 'a list) \<Rightarrow> 'b scan \<Rightarrow> 'a scan_iter \<Rightarrow> 'b
      \<Rightarrow> (pyerror option \<times> 'a scan_iter \<times> 'b) option"
  fix buffer scan self w y
  assume IH: "\<And>buffer scan self w y. f buffer scan self w = Some y \<Longrightarrow>
      scan = answering (c, []) \<and> truthy c \<and> buffer [] = [] \<and> ret self = []
        \<and> truthy (cur self) \<longrightarrow> False"
    and eq: "(if ret self = [] \<and> truthy (cur self) then
        (case scan w (cur self) of
           (Inl e, w') \<Rightarrow> Some (Some e, self, w')
         | (Inr (c, page), w') \<Rightarrow> f buffer scan (self\<lparr>cur := c, ret := buffer page\<rparr>) w')
      else Some (None, self, w)) = Some y"
  show "scan = answering (c, []) \<and> truthy c \<and> buffer [] = [] \<and> ret self = []
        \<and> truthy (cur self) \<longrightarrow> False"
  proof
    assume a: "scan = answering (c, []) \<and> truthy c \<and> buffer [] = [] \<and> ret self = []
        \<and> truthy (cur self)"
    with eq have "f buffer scan (self\<lparr>cur := c, ret := buffer []\<rparr>) w = Some y"
      by (simp add: answering_def)
    from IH [OF this] a show False by simp
  qed
qed

lemma anext_never:
  assumes "truthy c" "buffer [] = []" "ret self = []" "truthy (cur self)"
  shows "anext buffer (answering (c, [])) self w = None"
proof -
  have "fetch buffer (answering (c, [])) self w = None"
  proof (cases "fetch buffer (answering (c, [])) self w")
    case None
    then show ?thesis .
  next
    case (Some y)
    from fetch_never [OF this, of c] assms show ?thesis by simp
  qed
  then show ?thesis by (simp add: anext_def)
qed

text \<open>
  Claim C2, as amended. For every scan primitive, \<open>_ScanIter\<close> yields the buffered items
  one at a time, in the order the primitive returned them, without calling the primitive
  while the buffer holds an item; with an empty buffer and a true cursor it calls the
  primitive and goes on with the returned cursor and page; after the fetch loop it ends the
  iteration exactly when the cursor is false in Python's sense (the integer 0, as the scan
  commands return it) and the buffer is empty, and otherwise yields the first buffered item.
  Driven by a script of pages whose cursors are true but for the last, it yields the items
  of all the pages in order and ends normally: the pages \<open>(5, [1, 2])\<close> then \<open>(0, [3])\<close>
  give 1, 2, 3 and the end; a primitive that at once returns \<open>(0, [])\<close> gives the end at
  the first step.
\<close>

theorem scan_iter_protocol:
  "(ret self = x # xs \<longrightarrow> ScanIter_anext scan self w = Some (Inr x, self\<lparr>ret := xs\<rparr>, w))
   \<and> (ret self = [] \<and> \<not> truthy (cur self) \<longrightarrow>
        ScanIter_anext scan self w = Some (Inl StopAsyncIteration, self, w))
   \<and> (ret self = [] \<and> truthy (cur self) \<and> scan w (cur self) = (Inr (c, page), w') \<longrightarrow>
        ScanIter_anext scan self w = ScanIter_anext scan \<lparr>cur = c, ret = page\<rparr> w')
   \<and> (fetch (\<lambda>page. page) scan self w = Some (None, self1, w1) \<longrightarrow>
        (ret self1 = [] \<and> \<not> truthy (cur self1)
           \<and> ScanIter_anext scan self w = Some (Inl StopAsyncIteration, self1, w1))
        \<or> (\<exists>y ys. ret self1 = y # ys
           \<and> ScanIter_anext scan self w = Some (Inr y, self1\<lparr>ret := ys\<rparr>, w1)))
   \<and> ((\<forall>cp\<in>set ps. truthy (fst cp)) \<and> \<not> truthy c0 \<longrightarrow>
        async_for (\<lambda>page. page) scripted scan_iter_init (ps @ (c0, p0) # rest) []
          = Some (concat (map snd ps) @ p0, StopAsyncIteration))
   \<and> async_for (\<lambda>page. page) scripted scan_iter_init
        [(RInt 5, [RInt 1, RInt 2]), (RInt 0, [RInt 3])] []
       = Some ([RInt 1, RInt 2, RInt 3], StopAsyncIteration)
   \<and> ScanIter_anext scripted scan_iter_init [(RInt 0, [])]
       = Some (Inl StopAsyncIteration, \<lparr>cur = RInt 0, ret = []\<rparr>, [])
   \<and> ScanIter_anext (answering (RInt 0, [])) scan_iter_init w
       = Some (Inl StopAsyncIteration, \<lparr>cur = RInt 0, ret = []\<rparr>, w)"
proof -
  have i: "ret (scan_iter_init :: reply scan_iter) = []
      \<and> truthy (cur (scan_iter_init :: reply scan_iter))"
    by (simp add: scan_iter_init_def ascii_def)
  have 1: "ret self = x # xs \<longrightarrow> ScanIter_anext scan self w = Some (Inr x, self\<lparr>ret := xs\<rparr>, w)"
    by (simp add: ScanIter_anext_def anext_buffered)
  have 2: "ret self = [] \<and> \<not> truthy (cur self) \<longrightarrow>
        ScanIter_anext scan self w = Some (Inl StopAsyncIteration, self, w)"
    by (simp add: ScanIter_anext_def anext_stop)
  have 3: "ret self = [] \<and> truthy (cur self) \<and> scan w (cur self) = (Inr (c, page), w') \<longrightarrow>
        ScanIter_anext scan self w = ScanIter_anext scan \<lparr>cur = c, ret = page\<rparr> w'"
  proof
    assume a: "ret self = [] \<and> truthy (cur self) \<and> scan w (cur self) = (Inr (c, page), w')"
    then have "anext (\<lambda>page. page) scan self w
        = anext (\<lambda>page. page) scan (self\<lparr>cur := c, ret := page\<rparr>) w'"
      by (intro anext_fetch [where buffer = "\<lambda>page. page"]) simp_all
    moreover have "self\<lparr>cur := c, ret := page\<rparr> = \<lparr>cur = c, ret = page\<rparr>"
      by (cases self) simp
    ultimately show "ScanIter_anext scan self w = ScanIter_anext scan \<lparr>cur = c, ret = page\<rparr> w'"
      by (simp add: ScanIter_anext_def)
  qed
  have 4: "fetch (\<lambda>page. page) scan self w = Some (None, self1, w1) \<longrightarrow>
        (ret self1 = [] \<and> \<not> truthy (cur self1)
           \<and> ScanIter_anext scan self w = Some (Inl StopAsyncIteration, self1, w1))
        \<or> (\<exists>y ys. ret self1 = y # ys
           \<and> ScanIter_anext scan self w = Some (Inr y, self1\<lparr>ret := ys\<rparr>, w1))"
  proof
    assume "fetch (\<lambda>page. page) scan self w = Some (None, self1, w1)"
    from anext_after_fetch [OF this]
    show "(ret self1 = [] \<and> \<not> truthy (cur self1)
           \<and> ScanIter_anext scan self w = Some (Inl StopAsyncIteration, self1, w1))
        \<or> (\<exists>y ys. ret self1 = y # ys
           \<and> ScanIter_anext scan self w = Some (Inr y, self1\<lparr>ret := ys\<rparr>, w1))"
      by (simp add: ScanIter_anext_def)
  qed
  have 5: "(\<forall>cp\<in>set ps. truthy (fst cp)) \<and> \<not> truthy c0 \<longrightarrow>
        async_for (\<lambda>page. page) scripted scan_iter_init (ps @ (c0, p0) # rest) []
          = Some (concat (map snd ps) @ p0, StopAsyncIteration)"
    using i async_for_scripted [where buffer = "\<lambda>page. page" and self = scan_iter_init
        and acc = "[]" and ps = ps and ?c0.0 = c0 and ?p0.0 = p0 and rest = rest]
    by simp
  have 6: "async_for (\<lambda>page. page) scripted scan_iter_init
        [(RInt 5, [RInt 1, RInt 2]), (RInt 0, [RInt 3])] []
       = Some ([RInt 1, RInt 2, RInt 3], StopAsyncIteration)"
    using i async_for_scripted [where buffer = "\<lambda>page. page" and self = scan_iter_init
        and acc = "[]" and ps = "[(RInt 5, [RInt 1, RInt 2])]" and ?c0.0 = "RInt 0"
        and ?p0.0 = "[RInt 3]" and rest = "[]"]
    by simp
  have 7: "ScanIter_anext scripted scan_iter_init [(RInt 0, [])]
       = Some (Inl StopAsyncIteration, \<lparr>cur = RInt 0, ret = []\<rparr>, [])"
    by (simp add: ScanIter_anext_def anext_def fetch_step fetch_stop scripted_def
        scan_iter_init_def ascii_def)
  have 8: "ScanIter_anext (answering (RInt 0, [])) scan_iter_init w
       = Some (Inl StopAsyncIteration, \<lparr>cur = RInt 0, ret = []\<rparr>, w)"
    by (simp add: ScanIter_anext_def anext_def fetch_step fetch_stop answering_def
        scan_iter_init_def ascii_def)
  from 1 2 3 4 5 6 7 8 show ?thesis by blast
qed

text \<open>
  The theorem at a buffer that holds 1 and 2, at a finished iterator, at a fetch of the page
  \<open>(0, [3])\<close>, and at the script \<open>(5, [1, 2])\<close>, \<open>(7, [])\<close>, \<open>(0, [3])\<close>.
\<close>

theorem scan_iter_protocol_witness:
  "ScanIter_anext scripted \<lparr>cur = RInt 5, ret = [RInt 1, RInt 2]\<rparr> [(RInt 0, [RInt 3])]
     = Some (Inr (RInt 1), \<lparr>cur = RInt 5, ret = [RInt 2]\<rparr>, [(RInt 0, [RInt 3])])
   \<and> ScanIter_anext scripted \<lparr>cur = RInt 0, ret = []\<rparr> []
     = Some (Inl StopAsyncIteration, \<lparr>cur = RInt 0, ret = []\<rparr>, [])
   \<and> ScanIter_anext scripted \<lparr>cur = RInt 5, ret = []\<rparr> [(RInt 0, [RInt 3])]
     = ScanIter_anext scripted \<lparr>cur = RInt 0, ret = [RInt 3]\<rparr> []
   \<and> fetch (\<lambda>page. page) scripted \<lparr>cur = RInt 5, ret = []\<rparr> [(RInt 0, [RInt 3])]
     = Some (None, \<lparr>cur = RInt 0, ret = [RInt 3]\<rparr>, [])
   \<and> ScanIter_anext scripted \<lparr>cur = RInt 5, ret = []\<rparr> [(RInt 0, [RInt 3])]
     = Some (Inr (RInt 3), \<lparr>cur = RInt 0, ret = []\<rparr>, [])
   \<and> list_all (\<lambda>cp. truthy (fst cp)) [(RInt 5, [RInt 1, RInt 2]), (RInt 7, [])]
   \<and> \<not> truthy (RInt 0)
   \<and> async_for (\<lambda>page. page) scripted scan_iter_init
        ([(RInt 5, [RInt 1, RInt 2]), (RInt 7, [])] @ (RInt 0, [RInt 3]) # []) []
     = Some ([RInt 1, RInt 2, RInt 3], StopAsyncIteration)"
proof -
  let ?w = "[(RInt 0, [RInt 3])]"
  have a: "ScanIter_anext scripted \<lparr>cur = RInt 5, ret = [RInt 1, RInt 2]\<rparr> ?w
     = Some (Inr (RInt 1), \<lparr>cur = RInt 5, ret = [RInt 2]\<rparr>, ?w)"
    using scan_iter_protocol [where self = "\<lparr>cur = RInt 5, ret = [RInt 1, RInt 2]\<rparr>"
        and x = "RInt 1" and xs = "[RInt 2]" and scan = scripted and w = ?w]
    by simp
  have b: "ScanIter_anext scripted \<lparr>cur = RInt 0, ret = []\<rparr> []
     = Some (Inl StopAsyncIteration, \<lparr>cur = RInt 0, ret = []\<rparr>, [])"
    using scan_iter_protocol [where self = "\<lparr>cur = RInt 0, ret = []\<rparr>" and scan = scripted
        and w = "[]"]
    by simp
  have s: "scripted ?w (cur \<lparr>cur = RInt 5, ret = []\<rparr>) = (Inr (RInt 0, [RInt 3]), [])"
    by (simp add: scripted_def)
  have c: "ScanIter_anext scripted \<lparr>cur = RInt 5, ret = []\<rparr> ?w
     = ScanIter_anext scripted \<lparr>cur = RInt 0, ret = [RInt 3]\<rparr> []"
    using s scan_iter_protocol [where self = "\<lparr>cur = RInt 5, ret = []\<rparr>" and scan = scripted
        and w = ?w and c = "RInt 0" and page = "[RInt 3]" and w' = "[]"]
    by simp
  have f: "fetch (\<lambda>page. page) scripted \<lparr>cur = RInt 5, ret = []\<rparr> ?w
     = Some (None, \<lparr>cur = RInt 0, ret = [RInt 3]\<rparr>, [])"
    by (simp add: fetch_step [where c = "RInt 0" and page = "[RInt 3]" and w' = "[]"]
        fetch_stop scripted_def)
  have d: "ScanIter_anext scripted \<lparr>cur = RInt 5, ret = []\<rparr> ?w
     = Some (Inr (RInt 3), \<lparr>cur = RInt 0, ret = []\<rparr>, [])"
    using f scan_iter_protocol [where self = "\<lparr>cur = RInt 5, ret = []\<rparr>" and scan = scripted
        and w = ?w and ?self1.0 = "\<lparr>cur = RInt 0, ret = [RInt 3]\<rparr>" and ?w1.0 = "[]"]
    by simp
  have e: "async_for (\<lambda>page. page) scripted scan_iter_init
        ([(RInt 5, [RInt 1, RInt 2]), (RInt 7, [])] @ (RInt 0, [RInt 3]) # []) []
     = Some ([RInt 1, RInt 2, RInt 3], StopAsyncIteration)"
    using scan_iter_protocol
        [where ps = "[(RInt 5, [RInt 1, RInt 2]), (RInt 7, [])]"
          and ?c0.0 = "RInt 0" and ?p0.0 = "[RInt 3]" and rest = "[]",
          THEN conjunct2, THEN conjunct2, THEN conjunct2, THEN conjunct2, THEN conjunct1]
    by simp
  from a b c f d e show ?thesis by simp
qed

text \<open>
  Claim C2 as first stated fails: the text \<open>"0"\<close> is a true value, so the iterator does not
  take it for the end. Driven by \<open>("5", [1, 2])\<close> then \<open>("0", [3])\<close> it yields 1, 2, 3 and
  then calls the primitive a third time, which ends the loop with the primitive's error;
  with a primitive that answers \<open>("0", [])\<close> to every call, \<open>__anext__\<close> never returns.
\<close>

theorem scan_iter_protocol_counterexample:
  "async_for (\<lambda>page. page) scripted scan_iter_init
      [(RStr (str ''5''), [RInt 1, RInt 2]), (RStr (str ''0''), [RInt 3])] []
     = Some ([RInt 1, RInt 2, RInt 3], Raised ''no more pages'')
   \<and> ScanIter_anext scripted \<lparr>cur = RStr (str ''0''), ret = []\<rparr> []
     = Some (Inl (Raised ''no more pages''), \<lparr>cur = RStr (str ''0''), ret = []\<rparr>, [])
   \<and> ScanIter_anext (answering (RStr (str ''0''), [])) scan_iter_init () = None"
proof -
  have i: "ret (scan_iter_init :: reply scan_iter) = []
      \<and> truthy (cur (scan_iter_init :: reply scan_iter))"
    by (simp add: scan_iter_init_def ascii_def)
  have 1: "async_for (\<lambda>page. page) scripted scan_iter_init
      [(RStr (str ''5''), [RInt 1, RInt 2]), (RStr (str ''0''), [RInt 3])] []
     = Some ([RInt 1, RInt 2, RInt 3], Raised ''no more pages'')"
    using i async_for_scripted_exhausted [where buffer = "\<lambda>page. page" and self = scan_iter_init
        and acc = "[]"
        and ps = "[(RStr (str ''5''), [RInt 1, RInt 2]), (RStr (str ''0''), [RInt 3])]"]
    by (simp add: str_def)
  have 2: "ScanIter_anext scripted \<lparr>cur = RStr (str ''0''), ret = []\<rparr> []
     = Some (Inl (Raised ''no more pages''), \<lparr>cur = RStr (str ''0''), ret = []\<rparr>, [])"
    by (simp add: ScanIter_anext_def
        anext_error [where e = "Raised ''no more pages''" and w' = "[]"] scripted_def str_def)
  have 3: "ScanIter_anext (answering (RStr (str ''0''), [])) scan_iter_init () = None"
    unfolding ScanIter_anext_def using i
    by (intro anext_never) (simp_all add: str_def)
  from 1 2 3 show ?thesis by blast
qed

end
